theory Spec2Isabelle
  imports Main "HOL-Library.Sublist"
begin

section \<open>Strings\<close>

text \<open>
  JavaScript strings are modelled as \<^typ>\<open>string\<close>: lists of 8-bit characters, read as
  the code units U+0000 to U+00FF (Latin-1). The library functions the plugin calls on
  strings (\<^verbatim>\<open>toLowerCase\<close>, \<^verbatim>\<open>$.trim\<close>, \<^verbatim>\<open>indexOf\<close>) are written out on that range.
\<close>

text \<open>Upper and lower case letters of Latin-1 differ in bit 5 (0x20) only.\<close>

fun withBit5 :: "bool \<Rightarrow> char \<Rightarrow> char" where
  "withBit5 b (Char b0 b1 b2 b3 b4 b5 b6 b7) = Char b0 b1 b2 b3 b4 b b6 b7"

text \<open>\<^verbatim>\<open>String.prototype.toLowerCase\<close>: A-Z and the accented capitals U+00C0 to U+00DE
  (the multiplication sign U+00D7 apart) move to their lower-case letter.\<close>

definition toLowerChar :: "char \<Rightarrow> char" where
  "toLowerChar c =
     (let n = (of_char c :: nat) in
      if (65 \<le> n \<and> n \<le> 90) \<or> (192 \<le> n \<and> n \<le> 222 \<and> n \<noteq> 215)
      then withBit5 True c else c)"

definition toLowerCase :: "string \<Rightarrow> string" where
  "toLowerCase s = map toLowerChar s"

text \<open>\<^verbatim>\<open>$.trim\<close> removes the white space \<^verbatim>\<open>[\s\uFEFF\xA0]\<close> at both ends; below U+0100
  these are tab, line feed, vertical tab, form feed, carriage return, space and the
  no-break space.\<close>

definition isSpace :: "char \<Rightarrow> bool" where
  "isSpace c = ((of_char c :: nat) \<in> set [9, 10, 11, 12, 13, 32, 160])"

definition trim :: "string \<Rightarrow> string" where
  "trim s = rev (dropWhile isSpace (rev (dropWhile isSpace s)))"

text \<open>\<^verbatim>\<open>String.prototype.indexOf\<close>: the first position where \<open>q\<close> starts, or -1.\<close>

fun indexOfFrom :: "string \<Rightarrow> string \<Rightarrow> nat \<Rightarrow> int" where
  "indexOfFrom [] q k = (if q = [] then int k else - 1)"
| "indexOfFrom (c # cs) q k = (if prefix q (c # cs) then int k else indexOfFrom cs q (Suc k))"

definition indexOf :: "string \<Rightarrow> string \<Rightarrow> int" where
  "indexOf s q = indexOfFrom s q 0"

section \<open>Regular expressions\<close>

text \<open>
  \<^verbatim>\<open>highlightText\<close> builds a regular expression from the query text and runs a global,
  case-insensitive replace with it. The fragment of the pattern language embedded here
  is what the plugin's own pattern uses: literal characters, \<^verbatim>\<open>^\<close>, \<^verbatim>\<open>$\<close>, \<^verbatim>\<open>.\<close>,
  capturing groups, alternation, character classes of plain characters and the greedy
  star. A pattern with \<^verbatim>\<open>\ + ? { }\<close> (or a range or escape inside a class) is outside
  the fragment and reported as \<open>Unsupported\<close>.
\<close>

datatype error = TypeError | SyntaxError | Unsupported

datatype re =
    Eps
  | Lit char
  | OneOf bool "char list"
  | Bol
  | Eol
  | Seq re re
  | Alt re re
  | Star re
  | Grp nat re

text \<open>With the \<^verbatim>\<open>i\<close> flag characters are compared after \<open>Canonicalize\<close>, which takes
  the upper-case letter where it is a single code unit of the same range.\<close>

definition canonicalize :: "char \<Rightarrow> char" where
  "canonicalize c =
     (let n = (of_char c :: nat) in
      if (97 \<le> n \<and> n \<le> 122) \<or> (224 \<le> n \<and> n \<le> 254 \<and> n \<noteq> 247)
      then withBit5 False c else c)"

type_synonym caps = "nat \<Rightarrow> string option"

fun groupsOf :: "re \<Rightarrow> nat list" where
  "groupsOf (Seq r1 r2) = groupsOf r1 @ groupsOf r2"
| "groupsOf (Alt r1 r2) = groupsOf r1 @ groupsOf r2"
| "groupsOf (Star r) = groupsOf r"
| "groupsOf (Grp n r) = n # groupsOf r"
| "groupsOf _ = []"

definition clear :: "nat list \<Rightarrow> caps \<Rightarrow> caps" where
  "clear ns c = (\<lambda>n. if n \<in> set ns then None else c n)"

text \<open>
  The backtracking matcher. \<open>rmatch r i xs c\<close> lists, in the order backtracking tries
  them, the ways \<open>r\<close> matches at position \<open>i\<close>, where \<open>xs\<close> is the input from \<open>i\<close> on
  and \<open>c\<close> the captures so far: each with the end position, the rest of the input and
  the captures. The first element is the match the engine reports. An iteration of a
  star that consumes nothing is cut, and the captures inside a star are reset at each
  iteration, as ECMAScript's \<open>RepeatMatcher\<close> does.
\<close>

function rmatch :: "re \<Rightarrow> nat \<Rightarrow> string \<Rightarrow> caps \<Rightarrow> (nat \<times> string \<times> caps) list" where
  "rmatch Eps i xs c = [(i, xs, c)]"
| "rmatch (Lit a) i xs c =
     (case xs of
        [] \<Rightarrow> []
      | x # xs' \<Rightarrow> if canonicalize x = canonicalize a then [(Suc i, xs', c)] else [])"
| "rmatch (OneOf neg as) i xs c =
     (case xs of
        [] \<Rightarrow> []
      | x # xs' \<Rightarrow>
          if (canonicalize x \<in> set (map canonicalize as)) \<noteq> neg then [(Suc i, xs', c)] else [])"
| "rmatch Bol i xs c = (if i = 0 then [(i, xs, c)] else [])"
| "rmatch Eol i xs c = (if xs = [] then [(i, xs, c)] else [])"
| "rmatch (Seq r1 r2) i xs c =
     concat (map (\<lambda>(j, ys, c'). rmatch r2 j ys c') (rmatch r1 i xs c))"
| "rmatch (Alt r1 r2) i xs c = rmatch r1 i xs c @ rmatch r2 i xs c"
| "rmatch (Grp n r) i xs c =
     map (\<lambda>(j, ys, c'). (j, ys, c'(n \<mapsto> take (j - i) xs))) (rmatch r i xs c)"
| "rmatch (Star r) i xs c =
     concat (map (\<lambda>(j, ys, c'). if length ys < length xs then rmatch (Star r) j ys c' else [])
                 (rmatch r i xs (clear (groupsOf r) c)))
     @ [(i, xs, c)]"
  by pat_completeness auto
termination
  by (relation "measures [\<lambda>(r, i, xs, c). size r, \<lambda>(r, i, xs, c). length xs]") auto

text \<open>
  \<^verbatim>\<open>String.prototype.replace\<close> with a global pattern: the leftmost match from
  \<open>lastIndex\<close> on is replaced and the search goes on behind it; after an empty match the
  next character is copied and the search moves one position on. \<open>sub\<close> expands the
  replacement template from the captures.
\<close>

function replaceAll :: "re \<Rightarrow> (caps \<Rightarrow> string) \<Rightarrow> nat \<Rightarrow> string \<Rightarrow> string" where
  "replaceAll r sub i xs =
     (case rmatch r i xs Map.empty of
        (j, ys, c) # _ \<Rightarrow>
          sub c @ (if length ys < length xs then replaceAll r sub j ys
                   else (case xs of [] \<Rightarrow> [] | x # xs' \<Rightarrow> x # replaceAll r sub (Suc i) xs'))
      | [] \<Rightarrow> (case xs of [] \<Rightarrow> [] | x # xs' \<Rightarrow> x # replaceAll r sub (Suc i) xs'))"
  by pat_completeness auto
termination
  by (relation "measure (\<lambda>(r, sub, i, xs). length xs)") auto

text \<open>\<^verbatim>\<open>$n\<close> in a replacement template: the capture, or nothing where the group did
  not take part in the match.\<close>

definition group :: "caps \<Rightarrow> nat \<Rightarrow> string" where
  "group c n = (case c n of None \<Rightarrow> [] | Some s \<Rightarrow> s)"

subsection \<open>\<^verbatim>\<open>new RegExp\<close>: from the pattern text to the expression\<close>

fun seqOf :: "re list \<Rightarrow> re" where
  "seqOf [] = Eps"
| "seqOf (t # ts) = Seq t (seqOf ts)"

fun disj :: "re list \<Rightarrow> re \<Rightarrow> re" where
  "disj [] r = r"
| "disj (a # as) r = Alt a (disj as r)"

text \<open>A star after an assertion or after another star is a syntax error.\<close>

fun quantifiable :: "re \<Rightarrow> bool" where
  "quantifiable Bol = False"
| "quantifiable Eol = False"
| "quantifiable (Star r) = False"
| "quantifiable _ = True"

fun classBody :: "string \<Rightarrow> char list \<Rightarrow> error + char list \<times> string" where
  "classBody [] acc = Inl SyntaxError"
| "classBody (c # cs) acc =
     (if c = CHR '']'' then Inr (acc, cs)
      else if c = CHR 0x5C \<or> c = CHR ''-'' then Inl Unsupported
      else classBody cs (acc @ [c]))"

lemma classBody_shorter: "classBody cs acc = Inr (as, rest) \<Longrightarrow> length rest \<le> length cs"
  by (induction cs arbitrary: acc) (auto split: if_splits simp: le_Suc_eq)

text \<open>
  The parser reads the pattern from left to right. \<open>n\<close> counts the groups opened so far
  (groups are numbered by their opening parenthesis), \<open>stack\<close> holds, for each group
  still open, its number and the alternatives and terms read before it, \<open>alts\<close> the
  finished alternatives of the innermost open group and \<open>terms\<close> the terms of its
  current alternative.
\<close>

function parseRe ::
  "string \<Rightarrow> nat \<Rightarrow> (nat \<times> re list \<times> re list) list \<Rightarrow> re list \<Rightarrow> re list \<Rightarrow> error + re" where
  "parseRe [] n stack alts terms =
     (if stack = [] then Inr (disj alts (seqOf terms)) else Inl SyntaxError)"
| "parseRe (c # cs) n stack alts terms =
     (if c = CHR ''('' then parseRe cs (Suc n) ((Suc n, alts, terms) # stack) [] []
      else if c = CHR '')'' then
        (case stack of
           [] \<Rightarrow> Inl SyntaxError
         | (g, alts', terms') # stack' \<Rightarrow>
             parseRe cs n stack' alts' (terms' @ [Grp g (disj alts (seqOf terms))]))
      else if c = CHR ''|'' then parseRe cs n stack (alts @ [seqOf terms]) []
      else if c = CHR ''*'' then
        (if terms = [] \<or> \<not> quantifiable (last terms) then Inl SyntaxError
         else parseRe cs n stack alts (butlast terms @ [Star (last terms)]))
      else if c = CHR ''^'' then parseRe cs n stack alts (terms @ [Bol])
      else if c = CHR ''$'' then parseRe cs n stack alts (terms @ [Eol])
      else if c = CHR ''.'' then
        parseRe cs n stack alts (terms @ [OneOf True [CHR 0x0A, CHR 0x0D]])
      else if c = CHR ''['' then
        (let neg = (cs \<noteq> [] \<and> hd cs = CHR ''^'') in
         case classBody (if neg then tl cs else cs) [] of
           Inl e \<Rightarrow> Inl e
         | Inr (as, rest) \<Rightarrow>
             parseRe rest n stack alts (terms @ [OneOf neg as]))
      else if c \<in> set [CHR 0x5C, CHR ''+'', CHR ''?'', CHR ''{'', CHR ''}''] then Inl Unsupported
      else parseRe cs n stack alts (terms @ [Lit c]))"
  by pat_completeness auto
termination
proof (relation "measure (\<lambda>(cs, n, stack, alts, terms). length cs)")
  fix c :: char and cs :: string and n :: nat and stack :: "(nat \<times> re list \<times> re list) list"
    and alts terms :: "re list" and neg :: bool and res :: "char list \<times> string"
    and as :: "char list" and rest :: string
  assume neg: "neg = (cs \<noteq> [] \<and> hd cs = CHR ''^'')"
    and body: "classBody (if neg then tl cs else cs) [] = Inr res" and res: "(as, rest) = res"
  from body res have "length rest \<le> length (if neg then tl cs else cs)"
    using classBody_shorter [of "if neg then tl cs else cs" "[]" as rest] by simp
  then have "length rest \<le> length cs" by (simp split: if_splits)
  then show "((rest, n, stack, alts, terms @ [OneOf neg as]), (c # cs, n, stack, alts, terms))
      \<in> measure (\<lambda>(cs, n, stack, alts, terms). length cs)" by simp
qed auto

section \<open>The page\<close>

text \<open>
  The plugin works on the page through jQuery. The page is modelled by what the plugin
  reads and writes of it: \<open>findIn d e sel\<close> are the descendants of the element \<open>e\<close> that
  the selector \<open>sel\<close> selects, in document order (\<^verbatim>\<open>$(e).find(sel)\<close>), \<open>textOf\<close> is an
  element's text content, \<open>htmlOf\<close> its inner HTML and \<open>classOf\<close> its classes. Elements
  are named by numbers. The text content is kept as the browser reports it: a field of
  its own, which writing the HTML of an element leaves as it is.
\<close>

type_synonym elem = nat

record dom =
  findIn :: "elem \<Rightarrow> string \<Rightarrow> elem list"
  textOf :: "elem \<Rightarrow> string"
  htmlOf :: "elem \<Rightarrow> string"
  classOf :: "elem \<Rightarrow> string list"

definition addClass :: "elem \<Rightarrow> string \<Rightarrow> dom \<Rightarrow> dom" where
  "addClass e cl d =
     d\<lparr>classOf := (classOf d)(e := (if cl \<in> set (classOf d e) then classOf d e
                                       else classOf d e @ [cl]))\<rparr>"

definition removeClass :: "elem \<Rightarrow> string \<Rightarrow> dom \<Rightarrow> dom" where
  "removeClass e cl d = d\<lparr>classOf := (classOf d)(e := removeAll cl (classOf d e))\<rparr>"

text \<open>\<^verbatim>\<open>cells.text()\<close>: the text contents of the elements of the set, joined.\<close>

definition textOfAll :: "dom \<Rightarrow> elem list \<Rightarrow> string" where
  "textOfAll d cells = concat (map (textOf d) cells)"

section \<open>The plugin\<close>

subsection \<open>\<^verbatim>\<open>highlightText\<close>\<close>

text \<open>The pattern \<^verbatim>\<open>/<\/?mark>/gi\<close> of line 169.\<close>

definition markTag :: re where
  "markTag = Seq (Lit CHR ''<'') (Seq (Alt (Lit CHR ''/'') Eps) (seqOf (map Lit ''mark>'')))"

text \<open>The pattern text of line 176, and the template \<^verbatim>\<open>$1$2<mark>$3</mark>$4$5\<close>.\<close>

definition patternFor :: "string \<Rightarrow> string" where
  "patternFor text = ''(^|>)([^\"<>]*)('' @ text @ '')([^\"<>]*)(<|$)''"

definition markTemplate :: "caps \<Rightarrow> string" where
  "markTemplate c =
     group c 1 @ group c 2 @ ''<mark>'' @ group c 3 @ ''</mark>'' @ group c 4 @ group c 5"

text \<open>The value of \<^verbatim>\<open>newHtml\<close> at line 179, from \<^verbatim>\<open>element.html()\<close> and the text;
  \<^verbatim>\<open>new RegExp\<close> throws on a pattern that does not parse.\<close>

definition newHtml :: "string \<Rightarrow> string \<Rightarrow> error + string" where
  "newHtml html text =
     (let stripped = replaceAll markTag (\<lambda>c. []) 0 html in
      if text \<noteq> [] then
        (case parseRe (patternFor text) 0 [] [] [] of
           Inl e \<Rightarrow> Inl e
         | Inr r \<Rightarrow> Inr (replaceAll r markTemplate 0 stripped))
      else Inr stripped)"

definition highlightText :: "elem \<Rightarrow> string \<Rightarrow> dom \<Rightarrow> error + dom" where
  "highlightText element text d =
     (case newHtml (htmlOf d element) text of
        Inl e \<Rightarrow> Inl e
      | Inr h \<Rightarrow> Inr (d\<lparr>htmlOf := (htmlOf d)(element := h)\<rparr>))"

subsection \<open>Configuration and state\<close>

text \<open>
  A callback works on the page and may throw. A configuration value that is not a
  function (\<^verbatim>\<open>null\<close>, say) is \<open>None\<close>: the plugin only ever asks whether
  \<^verbatim>\<open>typeof\<close> of the value is \<^verbatim>\<open>'function'\<close>.
\<close>

type_synonym callback = "elem \<Rightarrow> dom \<Rightarrow> error + dom"

record config =
  columnSelector :: string
  rowSelector :: string
  rowMatchClass :: string
  searchResultsClass :: string
  searchingClass :: string
  onMatchCell :: "(elem \<Rightarrow> string \<Rightarrow> dom \<Rightarrow> error + dom) option"
  resetCell :: "callback option"
  onMatchRow :: "callback option"
  onNoMatchRow :: "callback option"
  resetMatchRow :: "callback option"
  resetNoMatchRow :: "callback option"
  onStart :: "callback option"
  onCompleted :: "callback option"
  resetTable :: "callback option"

text \<open>The configuration of lines 40 to 159 for given class names (the default callbacks
  read the class names from the variables of lines 157 to 159), and the defaults.\<close>

definition configWith :: "string \<Rightarrow> string \<Rightarrow> string \<Rightarrow> config" where
  "configWith matchClass resultsClass busyClass =
     \<lparr> columnSelector = ''.searchable'',
       rowSelector = ''tbody > tr'',
       rowMatchClass = matchClass,
       searchResultsClass = resultsClass,
       searchingClass = busyClass,
       onMatchCell = Some (\<lambda>cell query. highlightText cell query),
       resetCell = Some (\<lambda>cell. highlightText cell []),
       onMatchRow = Some (\<lambda>row d. Inr (addClass row matchClass d)),
       onNoMatchRow = None,
       resetMatchRow = Some (\<lambda>row d. Inr (removeClass row matchClass d)),
       resetNoMatchRow = None,
       onStart = Some (\<lambda>table d. Inr (addClass table busyClass d)),
       onCompleted = Some (\<lambda>table d. Inr (addClass table resultsClass (removeClass table busyClass d))),
       resetTable = Some (\<lambda>table d. Inr (removeClass table resultsClass d)) \<rparr>"

definition defaultConfig :: config where
  "defaultConfig = configWith ''tablesearch-match'' ''tablesearch-results'' ''tablesearch-searching''"

text \<open>
  The state of one plugin instance: the three arrays of lines 36 to 38 and the page.
  \<open>calls\<close> is a log of the callback invocations, in order; the plugin does not keep it,
  the model does, to say which callbacks a run invoked and with which arguments.
\<close>

datatype call =
    OnStart elem
  | OnMatchCell elem string
  | OnMatchRow elem
  | OnNoMatchRow elem
  | OnCompleted elem
  | ResetCell elem
  | ResetMatchRow elem
  | ResetNoMatchRow elem
  | ResetTable elem

record state =
  matchRows :: "elem list"
  noMatchRows :: "elem list"
  matchCells :: "elem list"
  page :: dom
  calls :: "call list"

text \<open>A run ends normally in a state (\<open>Inr\<close>) or throws: \<open>Inl\<close> with the error and the
  state at that moment. \<open>final\<close> is the state a run leaves either way.\<close>

type_synonym outcome = "error \<times> state + state"

definition final :: "outcome \<Rightarrow> state" where
  "final r = (case r of Inl (e, s) \<Rightarrow> s | Inr s \<Rightarrow> s)"

definition thenDo :: "outcome \<Rightarrow> (state \<Rightarrow> outcome) \<Rightarrow> outcome" where
  "thenDo r f = (case r of Inl e \<Rightarrow> Inl e | Inr s \<Rightarrow> f s)"

text \<open>Calling a callback: the call is logged, and the page is the callback's result
  (a callback that throws leaves the page as it was).\<close>

definition invoke :: "call \<Rightarrow> (dom \<Rightarrow> error + dom) \<Rightarrow> state \<Rightarrow> outcome" where
  "invoke ev f s =
     (let s' = s\<lparr>calls := calls s @ [ev]\<rparr> in
      case f (page s') of
        Inl e \<Rightarrow> Inl (e, s')
      | Inr d \<Rightarrow> Inr (s'\<lparr>page := d\<rparr>))"

subsection \<open>\<^verbatim>\<open>doReset\<close> and \<^verbatim>\<open>reset\<close>\<close>

text \<open>
  The loop of lines 192 to 194. \<open>arr\<close> is the array the loop pops from; it is one of the
  three arrays of the instance, so every pop is written back to the state with \<open>put\<close>.
\<close>

function popAll ::
  "(elem list \<Rightarrow> state \<Rightarrow> state) \<Rightarrow> (elem \<Rightarrow> call) \<Rightarrow> callback \<Rightarrow> elem list \<Rightarrow> state \<Rightarrow> outcome" where
  "popAll put ev func arr s =
     (if length arr > 0 then
        (case invoke (ev (last arr)) (func (last arr)) (put (butlast arr) s) of
           Inl e \<Rightarrow> Inl e
         | Inr s' \<Rightarrow> popAll put ev func (butlast arr) s')
      else Inr s)"
  by pat_completeness auto
termination
  by (relation "measure (\<lambda>(put, ev, func, arr, s). length arr)") auto

text \<open>
  \<^verbatim>\<open>doReset(func, arr)\<close>. The assignment \<^verbatim>\<open>arr = []\<close> of line 196 binds the
  function's parameter to a new array: the array of the instance is not touched by it,
  so where \<open>func\<close> is not a function the array stays as it is.
\<close>

definition doReset ::
  "(state \<Rightarrow> elem list) \<Rightarrow> (elem list \<Rightarrow> state \<Rightarrow> state) \<Rightarrow> (elem \<Rightarrow> call) \<Rightarrow>
   callback option \<Rightarrow> state \<Rightarrow> outcome" where
  "doReset get put ev func s =
     (case func of
        Some f \<Rightarrow> popAll put ev f (get s) s
      | None \<Rightarrow> Inr s)"

definition putMatchCells :: "elem list \<Rightarrow> state \<Rightarrow> state" where
  "putMatchCells arr s = s\<lparr>matchCells := arr\<rparr>"

definition putMatchRows :: "elem list \<Rightarrow> state \<Rightarrow> state" where
  "putMatchRows arr s = s\<lparr>matchRows := arr\<rparr>"

definition putNoMatchRows :: "elem list \<Rightarrow> state \<Rightarrow> state" where
  "putNoMatchRows arr s = s\<lparr>noMatchRows := arr\<rparr>"

text \<open>\<^verbatim>\<open>reset\<close>. Line 208 calls \<^verbatim>\<open>config.resetTable\<close> without asking whether it is a
  function: calling a value that is not one throws a \<^verbatim>\<open>TypeError\<close>.\<close>

definition reset :: "config \<Rightarrow> elem \<Rightarrow> state \<Rightarrow> outcome" where
  "reset cfg self s =
     thenDo (doReset matchCells putMatchCells ResetCell (resetCell cfg) s) (\<lambda>s.
     thenDo (doReset matchRows putMatchRows ResetMatchRow (resetMatchRow cfg) s) (\<lambda>s.
     thenDo (doReset noMatchRows putNoMatchRows ResetNoMatchRow (resetNoMatchRow cfg) s) (\<lambda>s.
       case resetTable cfg of
         None \<Rightarrow> Inl (TypeError, s)
       | Some f \<Rightarrow> invoke (ResetTable self) (f self) s)))"

subsection \<open>\<^verbatim>\<open>searchFor\<close>\<close>

text \<open>The loop over the cells of a matching row, lines 233 to 237.\<close>

fun eachCell ::
  "(elem \<Rightarrow> string \<Rightarrow> dom \<Rightarrow> error + dom) \<Rightarrow> string \<Rightarrow> elem list \<Rightarrow> state \<Rightarrow> outcome" where
  "eachCell f q [] s = Inr s"
| "eachCell f q (cell # cells) s =
     (case invoke (OnMatchCell cell q) (f cell q) (s\<lparr>matchCells := matchCells s @ [cell]\<rparr>) of
        Inl e \<Rightarrow> Inl e
      | Inr s' \<Rightarrow> eachCell f q cells s')"

text \<open>The function called for each row, lines 224 to 255.\<close>

definition eachRowBody :: "config \<Rightarrow> string \<Rightarrow> elem \<Rightarrow> state \<Rightarrow> outcome" where
  "eachRowBody cfg q row s =
     (let cells = findIn (page s) row (columnSelector cfg) in
      if indexOf (toLowerCase (textOfAll (page s) cells)) q > - 1 then
        thenDo (case onMatchCell cfg of
                  Some f \<Rightarrow> eachCell f q cells s
                | None \<Rightarrow> Inr s) (\<lambda>s.
          case onMatchRow cfg of
            Some f \<Rightarrow> invoke (OnMatchRow row) (f row) (s\<lparr>matchRows := matchRows s @ [row]\<rparr>)
          | None \<Rightarrow> Inr s)
      else
        (case onNoMatchRow cfg of
           Some f \<Rightarrow> invoke (OnNoMatchRow row) (f row) (s\<lparr>noMatchRows := noMatchRows s @ [row]\<rparr>)
         | None \<Rightarrow> Inr s))"

fun eachRow :: "config \<Rightarrow> string \<Rightarrow> elem list \<Rightarrow> state \<Rightarrow> outcome" where
  "eachRow cfg q [] s = Inr s"
| "eachRow cfg q (row # rows) s =
     (case eachRowBody cfg q row s of
        Inl e \<Rightarrow> Inl e
      | Inr s' \<Rightarrow> eachRow cfg q rows s')"

definition searchFor :: "config \<Rightarrow> elem \<Rightarrow> string \<Rightarrow> state \<Rightarrow> outcome" where
  "searchFor cfg self query s =
     thenDo (reset cfg self s) (\<lambda>s.
       let q = toLowerCase (trim query) in
       if q = [] then Inr s
       else
         thenDo (case onStart cfg of
                   Some f \<Rightarrow> invoke (OnStart self) (f self) s
                 | None \<Rightarrow> Inr s) (\<lambda>s.
         thenDo (eachRow cfg q (findIn (page s) self (rowSelector cfg)) s) (\<lambda>s.
           case onCompleted cfg of
             Some f \<Rightarrow> invoke (OnCompleted self) (f self) s
           | None \<Rightarrow> Inr s)))"

text \<open>A new instance: the arrays are empty (lines 36 to 38).\<close>

definition newInstance :: "dom \<Rightarrow> state" where
  "newInstance d = \<lparr> matchRows = [], noMatchRows = [], matchCells = [], page = d, calls = [] \<rparr>"

subsection \<open>An example page\<close>

text \<open>
  The table of the specification's example: the table is element 5, its rows are 10
  (cells 11 and 12, ``Alice'' and ``Bob'') and 20 (cells 21 and 22, ``Catherine'' and
  ``Smith''); every cell is searchable.
\<close>

definition examplePage :: dom where
  "examplePage =
     \<lparr> findIn = (\<lambda>e sel.
         if e = 5 \<and> sel = ''tbody > tr'' then [10, 20]
         else if e = 10 \<and> sel = ''.searchable'' then [11, 12]
         else if e = 20 \<and> sel = ''.searchable'' then [21, 22]
         else []),
       textOf = (\<lambda>e.
         if e = 11 then ''Alice'' else if e = 12 then ''Bob''
         else if e = 21 then ''Catherine'' else if e = 22 then ''Smith'' else []),
       htmlOf = (\<lambda>e.
         if e = 11 then ''Alice'' else if e = 12 then ''Bob''
         else if e = 21 then ''Catherine'' else if e = 22 then ''Smith'' else []),
       classOf = (\<lambda>e. []) \<rparr>"

subsection \<open>Example configurations\<close>

text \<open>The defaults with an \<^verbatim>\<open>onNoMatchRow\<close> callback given (\<^verbatim>\<open>resetNoMatchRow\<close> is left at its
  default, \<^verbatim>\<open>null\<close>), and the defaults with \<^verbatim>\<open>resetTable: null\<close>.\<close>

definition noMatchConfig :: config where
  "noMatchConfig =
     defaultConfig\<lparr>onNoMatchRow := Some (\<lambda>row d. Inr (addClass row ''tablesearch-nomatch'' d))\<rparr>"

definition noResetTableConfig :: config where
  "noResetTableConfig = defaultConfig\<lparr>resetTable := None\<rparr>"

text \<open>The defaults with the three match callbacks switched off.\<close>

definition silentConfig :: config where
  "silentConfig = defaultConfig\<lparr>onMatchCell := None, onMatchRow := None\<rparr>"


section \<open>Vocabulary of the statements\<close>

text \<open>\<open>logged P s r\<close>: the run \<open>r\<close> from the state \<open>s\<close> added to the log only calls that
  satisfy \<open>P\<close>.\<close>

definition logged :: "(call \<Rightarrow> bool) \<Rightarrow> state \<Rightarrow> outcome \<Rightarrow> bool" where
  "logged P s r = (\<exists>new. calls (final r) = calls s @ new \<and> list_all P new)"

text \<open>
  The specification's words for a matching row: the lower-case concatenation of the text
  of its searchable cells contains the normalised query as a substring.
\<close>

definition rowMatches :: "config \<Rightarrow> dom \<Rightarrow> string \<Rightarrow> elem \<Rightarrow> bool" where
  "rowMatches cfg d q row =
     sublist q (toLowerCase (textOfAll d (findIn d row (columnSelector cfg))))"

text \<open>The rows, the cells and the \<^verbatim>\<open>onMatchCell\<close> calls a match pass over \<open>rows\<close> is
  to record, in order.\<close>

definition matchingRows :: "config \<Rightarrow> dom \<Rightarrow> string \<Rightarrow> elem list \<Rightarrow> elem list" where
  "matchingRows cfg d q rows = filter (rowMatches cfg d q) rows"

definition otherRows :: "config \<Rightarrow> dom \<Rightarrow> string \<Rightarrow> elem list \<Rightarrow> elem list" where
  "otherRows cfg d q rows = filter (\<lambda>row. \<not> rowMatches cfg d q row) rows"

definition matchingCells :: "config \<Rightarrow> dom \<Rightarrow> string \<Rightarrow> elem list \<Rightarrow> elem list" where
  "matchingCells cfg d q rows =
     concat (map (\<lambda>row. findIn d row (columnSelector cfg)) (matchingRows cfg d q rows))"

text \<open>The arguments of the calls of one callback in a log.\<close>

fun matchRowCalls :: "call list \<Rightarrow> elem list" where
  "matchRowCalls [] = []"
| "matchRowCalls (OnMatchRow row # cs) = row # matchRowCalls cs"
| "matchRowCalls (c # cs) = matchRowCalls cs"

fun noMatchRowCalls :: "call list \<Rightarrow> elem list" where
  "noMatchRowCalls [] = []"
| "noMatchRowCalls (OnNoMatchRow row # cs) = row # noMatchRowCalls cs"
| "noMatchRowCalls (c # cs) = noMatchRowCalls cs"

fun matchCellCalls :: "call list \<Rightarrow> (elem \<times> string) list" where
  "matchCellCalls [] = []"
| "matchCellCalls (OnMatchCell cell q # cs) = (cell, q) # matchCellCalls cs"
| "matchCellCalls (c # cs) = matchCellCalls cs"

text \<open>
  A callback is quiet when it returns normally and leaves alone what the plugin reads of
  the page to find the rows, the cells and their text. A configuration is well behaved
  for a query when its callbacks are quiet (\<^verbatim>\<open>onMatchCell\<close> for that query) and
  \<^verbatim>\<open>resetTable\<close> is a function.
\<close>

definition quiet :: "(dom \<Rightarrow> error + dom) \<Rightarrow> bool" where
  "quiet f = (\<forall>d. \<exists>d'. f d = Inr d' \<and> findIn d' = findIn d \<and> textOf d' = textOf d)"

definition quietOpt :: "callback option \<Rightarrow> bool" where
  "quietOpt cb = (case cb of None \<Rightarrow> True | Some f \<Rightarrow> \<forall>e. quiet (f e))"

definition wellBehaved :: "config \<Rightarrow> string \<Rightarrow> bool" where
  "wellBehaved cfg q =
     ((case onMatchCell cfg of None \<Rightarrow> True | Some f \<Rightarrow> \<forall>e. quiet (f e q))
      \<and> quietOpt (resetCell cfg) \<and> quietOpt (onMatchRow cfg) \<and> quietOpt (onNoMatchRow cfg)
      \<and> quietOpt (resetMatchRow cfg) \<and> quietOpt (resetNoMatchRow cfg)
      \<and> quietOpt (onStart cfg) \<and> quietOpt (onCompleted cfg)
      \<and> (\<exists>f. resetTable cfg = Some f \<and> (\<forall>e. quiet (f e))))"

text \<open>\<open>steady s r\<close>: the run \<open>r\<close> from \<open>s\<close> returns, and the rows, cells and texts of the
  page are after it what they were.\<close>

definition steady :: "state \<Rightarrow> outcome \<Rightarrow> bool" where
  "steady s r =
     (\<exists>s'. r = Inr s' \<and> findIn (page s') = findIn (page s) \<and> textOf (page s') = textOf (page s))"

text \<open>
  The vocabulary of the statements about \<^verbatim>\<open>highlightText\<close>. A text is plain when none
  of its characters is special in a regular expression. \<open>ciPrefix p xs\<close>: \<open>xs\<close> starts
  with \<open>p\<close>, letter case apart. \<open>hasMarkTag h\<close>: \<^verbatim>\<open><mark>\<close> or \<^verbatim>\<open></mark>\<close> occurs in \<open>h\<close>,
  in any letter case. \<open>marked h h'\<close>: \<open>h'\<close> is \<open>h\<close> with \<^verbatim>\<open><mark>\<close> and \<^verbatim>\<open></mark>\<close> put in
  at some places.
\<close>

definition regexSpecial :: "char \<Rightarrow> bool" where
  "regexSpecial c = (c \<in> set (CHR 0x5C # ''^$.|?*+()[]{}''))"

definition plainText :: "string \<Rightarrow> bool" where
  "plainText t = list_all (\<lambda>c. \<not> regexSpecial c) t"






section \<open>Basic facts\<close>

lemma toLowerCase_Nil [simp]: "toLowerCase s = [] \<longleftrightarrow> s = []"
  by (simp add: toLowerCase_def)

lemma indexOfFrom_sublist: "indexOfFrom s q k > - 1 \<longleftrightarrow> sublist q s"
  by (induction s arbitrary: k) (auto simp: sublist_Cons_right)

lemma indexOf_sublist: "indexOf s q > - 1 \<longleftrightarrow> sublist q s"
  by (simp add: indexOf_def indexOfFrom_sublist)

lemma final_simps [simp]: "final (Inr s) = s" "final (Inl (e, s)) = s"
  by (simp_all add: final_def)

lemma thenDo_simps [simp]: "thenDo (Inr s) f = f s" "thenDo (Inl e) f = Inl e"
  by (simp_all add: thenDo_def)

subsection \<open>Calls and loops\<close>

declare popAll.simps [simp del]

lemma invoke_final [simp]:
  "matchRows (final (invoke ev f s)) = matchRows s"
  "noMatchRows (final (invoke ev f s)) = noMatchRows s"
  "matchCells (final (invoke ev f s)) = matchCells s"
  "calls (final (invoke ev f s)) = calls s @ [ev]"
  by (simp_all add: invoke_def Let_def split: sum.splits)

lemma invoke_Inr:
  "invoke ev f s = Inr s' \<Longrightarrow> \<exists>d. f (page s) = Inr d \<and> s' = s\<lparr>calls := calls s @ [ev], page := d\<rparr>"
  by (auto simp: invoke_def Let_def split: sum.splits)

lemma invoke_Inr_lists:
  assumes "invoke ev f s = Inr s'"
  shows "matchRows s' = matchRows s" "noMatchRows s' = noMatchRows s"
    "matchCells s' = matchCells s" "calls s' = calls s @ [ev]"
  using invoke_Inr [OF assms] by auto

lemma logged_refl: "logged P s (Inr s)"
  by (simp add: logged_def)

lemma logged_invoke: "P ev \<Longrightarrow> logged P s (invoke ev f s)"
  by (simp add: logged_def)

lemma logged_thenDo:
  assumes "logged P s r" and "\<And>s'. r = Inr s' \<Longrightarrow> logged P s' (f s')"
  shows "logged P s (thenDo r f)"
proof (cases r)
  case (Inl e)
  with assms(1) show ?thesis by simp
next
  case (Inr s')
  from assms(1) Inr obtain new where n: "calls s' = calls s @ new" "list_all P new"
    by (auto simp: logged_def)
  from assms(2) [OF Inr] obtain new' where n': "calls (final (f s')) = calls s' @ new'" "list_all P new'"
    by (auto simp: logged_def)
  from n n' Inr show ?thesis by (auto simp: logged_def)
qed

lemma logged_case:
  assumes "logged P s r" and "\<And>s'. r = Inr s' \<Longrightarrow> logged P s' (f s')"
  shows "logged P s (case r of Inl e \<Rightarrow> Inl e | Inr s' \<Rightarrow> f s')"
  using logged_thenDo [OF assms] by (simp add: thenDo_def)

lemma popAll_Nil [simp]: "popAll put ev f [] s = Inr s"
  by (simp add: popAll.simps [of _ _ _ "[]"])

lemma popAll_snoc [simp]:
  "popAll put ev f (xs @ [x]) s =
     (case invoke (ev x) (f x) (put xs s) of Inl e \<Rightarrow> Inl e | Inr s' \<Rightarrow> popAll put ev f xs s')"
  by (simp add: popAll.simps [of _ _ _ "xs @ [x]"] split: sum.splits)

lemma logged_popAll:
  assumes put: "\<And>a s. calls (put a s) = calls s" and P: "\<And>x. P (ev x)"
  shows "logged P s (popAll put ev f arr s)"
proof (induction arr arbitrary: s rule: rev_induct)
  case Nil
  show ?case by (simp add: logged_refl)
next
  case (snoc x xs)
  have "logged P (put xs s) (invoke (ev x) (f x) (put xs s))"
    by (rule logged_invoke) (rule P)
  then have "logged P (put xs s) (popAll put ev f (xs @ [x]) s)"
    unfolding popAll_snoc by (rule logged_case) (rule snoc.IH)
  then show ?case by (simp add: logged_def put)
qed

text \<open>What a getter of one of the arrays needs to be untouched by a loop on another.\<close>

lemma popAll_frame:
  assumes "\<And>a s. g (put a s) = g s" and "\<And>s ev f. g (final (invoke ev f s)) = g s"
  shows "g (final (popAll put ev f arr s)) = g s"
proof (induction arr arbitrary: s rule: rev_induct)
  case Nil
  show ?case by simp
next
  case (snoc x xs)
  show ?case
  proof (cases "invoke (ev x) (f x) (put xs s)")
    case (Inl e)
    then have "g (final (popAll put ev f (xs @ [x]) s)) = g (final (invoke (ev x) (f x) (put xs s)))"
      by simp
    then show ?thesis by (simp add: assms)
  next
    case (Inr s')
    then have "g s' = g (final (invoke (ev x) (f x) (put xs s)))" by simp
    then have "g s' = g s" by (simp add: assms)
    with Inr snoc.IH [of s'] show ?thesis by simp
  qed
qed

lemma popAll_Inr_empty:
  assumes "\<And>a s. get (put a s) = a" and "\<And>s s' ev f. invoke ev f s = Inr s' \<Longrightarrow> get s' = get s"
  shows "popAll put ev f arr s = Inr s' \<Longrightarrow> get s = arr \<Longrightarrow> get s' = []"
proof (induction arr arbitrary: s rule: rev_induct)
  case Nil
  then show ?case by simp
next
  case (snoc x xs)
  from snoc.prems(1) obtain s1 where s1: "invoke (ev x) (f x) (put xs s) = Inr s1"
    and rest: "popAll put ev f xs s1 = Inr s'"
    by (auto split: sum.splits)
  from s1 have "get s1 = xs" by (simp add: assms)
  with rest show ?case by (rule snoc.IH)
qed

lemma doReset_None [simp]: "doReset get put ev None s = Inr s"
  by (simp add: doReset_def)

lemma doReset_empty: "get s = [] \<Longrightarrow> doReset get put ev func s = Inr s"
  by (simp add: doReset_def split: option.splits)

lemma put_simps [simp]:
  "matchCells (putMatchCells a s) = a" "matchRows (putMatchCells a s) = matchRows s"
  "noMatchRows (putMatchCells a s) = noMatchRows s" "calls (putMatchCells a s) = calls s"
  "page (putMatchCells a s) = page s"
  "matchCells (putMatchRows a s) = matchCells s" "matchRows (putMatchRows a s) = a"
  "noMatchRows (putMatchRows a s) = noMatchRows s" "calls (putMatchRows a s) = calls s"
  "page (putMatchRows a s) = page s"
  "matchCells (putNoMatchRows a s) = matchCells s" "matchRows (putNoMatchRows a s) = matchRows s"
  "noMatchRows (putNoMatchRows a s) = a" "calls (putNoMatchRows a s) = calls s"
  "page (putNoMatchRows a s) = page s"
  by (simp_all add: putMatchCells_def putMatchRows_def putNoMatchRows_def)

lemma doReset_frame:
  assumes "\<And>a s. g (put a s) = g s" and "\<And>s ev f. g (final (invoke ev f s)) = g s"
  shows "g (final (doReset get put ev func s)) = g s"
proof (cases func)
  case None
  then show ?thesis by simp
next
  case (Some f)
  have "g (final (popAll put ev f (get s) s)) = g s"
    using assms by (rule popAll_frame [where g = g and put = put])
  with Some show ?thesis by (simp add: doReset_def)
qed

lemma doReset_Inr_empty:
  assumes "\<And>a s. get (put a s) = a" and "\<And>s s' ev f. invoke ev f s = Inr s' \<Longrightarrow> get s' = get s"
    and "doReset get put ev func s = Inr s'"
  shows "func = None \<or> get s' = []"
proof (cases func)
  case None
  then show ?thesis by simp
next
  case (Some f)
  with assms(3) have "popAll put ev f (get s) s = Inr s'" by (simp add: doReset_def)
  moreover have "get s = get s" by simp
  ultimately have "get s' = []"
    using assms(1,2) by (rule popAll_Inr_empty [where get = get and put = put, rotated 2])
  then show ?thesis by simp
qed

lemma logged_doReset:
  assumes "\<And>a s. calls (put a s) = calls s" and "\<And>x. P (ev x)"
  shows "logged P s (doReset get put ev func s)"
proof (cases func)
  case None
  then show ?thesis by (simp add: logged_refl)
next
  case (Some f)
  have "logged P s (popAll put ev f (get s) s)"
    using assms by (rule logged_popAll [where put = put and P = P and ev = ev])
  with Some show ?thesis by (simp add: doReset_def)
qed

lemma invoke_Inr_frame:
  "invoke ev f s = Inr s' \<Longrightarrow> matchCells s' = matchCells s"
  "invoke ev f s = Inr s' \<Longrightarrow> matchRows s' = matchRows s"
  "invoke ev f s = Inr s' \<Longrightarrow> noMatchRows s' = noMatchRows s"
  by (auto dest: invoke_Inr)

text \<open>The reset, step by step.\<close>

lemma reset_Inr:
  assumes "reset cfg self s = Inr s1"
  obtains sa sb sc f where
    "doReset matchCells putMatchCells ResetCell (resetCell cfg) s = Inr sa"
    "doReset matchRows putMatchRows ResetMatchRow (resetMatchRow cfg) sa = Inr sb"
    "doReset noMatchRows putNoMatchRows ResetNoMatchRow (resetNoMatchRow cfg) sb = Inr sc"
    "resetTable cfg = Some f"
    "invoke (ResetTable self) (f self) sc = Inr s1"
  using assms unfolding reset_def thenDo_def by (auto split: sum.splits option.splits)

lemma doReset_keeps_empty:
  "matchCells s = [] \<Longrightarrow> matchCells (final (doReset matchCells putMatchCells ev func s)) = []"
  "matchCells s = [] \<Longrightarrow> matchCells (final (doReset matchRows putMatchRows ev func s)) = []"
  "matchCells s = [] \<Longrightarrow> matchCells (final (doReset noMatchRows putNoMatchRows ev func s)) = []"
  "matchRows s = [] \<Longrightarrow> matchRows (final (doReset matchCells putMatchCells ev func s)) = []"
  "matchRows s = [] \<Longrightarrow> matchRows (final (doReset matchRows putMatchRows ev func s)) = []"
  "matchRows s = [] \<Longrightarrow> matchRows (final (doReset noMatchRows putNoMatchRows ev func s)) = []"
  "noMatchRows s = [] \<Longrightarrow> noMatchRows (final (doReset matchCells putMatchCells ev func s)) = []"
  "noMatchRows s = [] \<Longrightarrow> noMatchRows (final (doReset matchRows putMatchRows ev func s)) = []"
  "noMatchRows s = [] \<Longrightarrow> noMatchRows (final (doReset noMatchRows putNoMatchRows ev func s)) = []"
  by (simp_all add: doReset_empty doReset_frame)

lemma reset_invariant:
  assumes "Q s"
    and "\<And>s func. Q s \<Longrightarrow> Q (final (doReset matchCells putMatchCells ResetCell func s))"
    and "\<And>s func. Q s \<Longrightarrow> Q (final (doReset matchRows putMatchRows ResetMatchRow func s))"
    and "\<And>s func. Q s \<Longrightarrow> Q (final (doReset noMatchRows putNoMatchRows ResetNoMatchRow func s))"
    and "\<And>s f. Q s \<Longrightarrow> Q (final (invoke (ResetTable self) f s))"
  shows "Q (final (reset cfg self s))"
proof (cases "doReset matchCells putMatchCells ResetCell (resetCell cfg) s")
  case (Inl e)
  with assms(2) [OF assms(1), of "resetCell cfg"] show ?thesis by (simp add: reset_def)
next
  case a: (Inr sa)
  with assms(2) [OF assms(1), of "resetCell cfg"] have sa: "Q sa" by simp
  show ?thesis
  proof (cases "doReset matchRows putMatchRows ResetMatchRow (resetMatchRow cfg) sa")
    case (Inl e)
    with assms(3) [OF sa, of "resetMatchRow cfg"] a show ?thesis by (simp add: reset_def)
  next
    case b: (Inr sb)
    with assms(3) [OF sa, of "resetMatchRow cfg"] have sb: "Q sb" by simp
    show ?thesis
    proof (cases "doReset noMatchRows putNoMatchRows ResetNoMatchRow (resetNoMatchRow cfg) sb")
      case (Inl e)
      with assms(4) [OF sb, of "resetNoMatchRow cfg"] a b show ?thesis by (simp add: reset_def)
    next
      case c: (Inr sc)
      with assms(4) [OF sb, of "resetNoMatchRow cfg"] have sc: "Q sc" by simp
      show ?thesis
      proof (cases "resetTable cfg")
        case None
        with a b c sc show ?thesis by (simp add: reset_def)
      next
        case (Some f)
        with assms(5) [OF sc, of "f self"] a b c show ?thesis by (simp add: reset_def)
      qed
    qed
  qed
qed

lemma reset_keeps_empty:
  "matchCells s = [] \<Longrightarrow> matchCells (final (reset cfg self s)) = []"
  "matchRows s = [] \<Longrightarrow> matchRows (final (reset cfg self s)) = []"
  "noMatchRows s = [] \<Longrightarrow> noMatchRows (final (reset cfg self s)) = []"
proof -
  show "matchCells s = [] \<Longrightarrow> matchCells (final (reset cfg self s)) = []"
    by (rule reset_invariant [where Q = "\<lambda>s. matchCells s = []"]) (simp_all add: doReset_keeps_empty)
  show "matchRows s = [] \<Longrightarrow> matchRows (final (reset cfg self s)) = []"
    by (rule reset_invariant [where Q = "\<lambda>s. matchRows s = []"]) (simp_all add: doReset_keeps_empty)
  show "noMatchRows s = [] \<Longrightarrow> noMatchRows (final (reset cfg self s)) = []"
    by (rule reset_invariant [where Q = "\<lambda>s. noMatchRows s = []"]) (simp_all add: doReset_keeps_empty)
qed

lemma doReset_Inr_frame:
  "doReset matchCells putMatchCells ev func s = Inr s' \<Longrightarrow> matchRows s' = matchRows s"
  "doReset matchCells putMatchCells ev func s = Inr s' \<Longrightarrow> noMatchRows s' = noMatchRows s"
  "doReset matchRows putMatchRows ev func s = Inr s' \<Longrightarrow> matchCells s' = matchCells s"
  "doReset matchRows putMatchRows ev func s = Inr s' \<Longrightarrow> noMatchRows s' = noMatchRows s"
  "doReset noMatchRows putNoMatchRows ev func s = Inr s' \<Longrightarrow> matchCells s' = matchCells s"
  "doReset noMatchRows putNoMatchRows ev func s = Inr s' \<Longrightarrow> matchRows s' = matchRows s"
proof -
  show "doReset matchCells putMatchCells ev func s = Inr s' \<Longrightarrow> matchRows s' = matchRows s"
    using doReset_frame [where g = matchRows and put = putMatchCells and get = matchCells, of ev func s]
    by simp
  show "doReset matchCells putMatchCells ev func s = Inr s' \<Longrightarrow> noMatchRows s' = noMatchRows s"
    using doReset_frame [where g = noMatchRows and put = putMatchCells and get = matchCells, of ev func s]
    by simp
  show "doReset matchRows putMatchRows ev func s = Inr s' \<Longrightarrow> matchCells s' = matchCells s"
    using doReset_frame [where g = matchCells and put = putMatchRows and get = matchRows, of ev func s]
    by simp
  show "doReset matchRows putMatchRows ev func s = Inr s' \<Longrightarrow> noMatchRows s' = noMatchRows s"
    using doReset_frame [where g = noMatchRows and put = putMatchRows and get = matchRows, of ev func s]
    by simp
  show "doReset noMatchRows putNoMatchRows ev func s = Inr s' \<Longrightarrow> matchCells s' = matchCells s"
    using doReset_frame [where g = matchCells and put = putNoMatchRows and get = noMatchRows, of ev func s]
    by simp
  show "doReset noMatchRows putNoMatchRows ev func s = Inr s' \<Longrightarrow> matchRows s' = matchRows s"
    using doReset_frame [where g = matchRows and put = putNoMatchRows and get = noMatchRows, of ev func s]
    by simp
qed

lemma doReset_Inr_done:
  "doReset matchCells putMatchCells ev func s = Inr s' \<Longrightarrow> func = None \<or> matchCells s' = []"
  "doReset matchRows putMatchRows ev func s = Inr s' \<Longrightarrow> func = None \<or> matchRows s' = []"
  "doReset noMatchRows putNoMatchRows ev func s = Inr s' \<Longrightarrow> func = None \<or> noMatchRows s' = []"
proof -
  show "doReset matchCells putMatchCells ev func s = Inr s' \<Longrightarrow> func = None \<or> matchCells s' = []"
    by (rule doReset_Inr_empty [where get = matchCells and put = putMatchCells])
       (simp_all add: invoke_Inr_frame)
  show "doReset matchRows putMatchRows ev func s = Inr s' \<Longrightarrow> func = None \<or> matchRows s' = []"
    by (rule doReset_Inr_empty [where get = matchRows and put = putMatchRows])
       (simp_all add: invoke_Inr_frame)
  show "doReset noMatchRows putNoMatchRows ev func s = Inr s' \<Longrightarrow> func = None \<or> noMatchRows s' = []"
    by (rule doReset_Inr_empty [where get = noMatchRows and put = putNoMatchRows])
       (simp_all add: invoke_Inr_frame)
qed

lemma doReset_idle: "func = None \<or> get s = [] \<Longrightarrow> doReset get put ev func s = Inr s"
  by (auto simp: doReset_empty)

lemma removeClass_twice [simp]: "removeClass e cl (removeClass e cl d) = removeClass e cl d"
  by (simp add: removeClass_def)

lemma logged_resetTable:
  assumes "\<And>x. P (ResetTable x)"
  shows "logged P s (case resetTable cfg of None \<Rightarrow> Inl (TypeError, s)
                      | Some f \<Rightarrow> invoke (ResetTable self) (f self) s)"
  by (cases "resetTable cfg") (simp_all add: logged_def assms)

lemma logged_reset:
  assumes "\<And>x. P (ResetCell x)" "\<And>x. P (ResetMatchRow x)" "\<And>x. P (ResetNoMatchRow x)"
    "\<And>x. P (ResetTable x)"
  shows "logged P s (reset cfg self s)"
  unfolding reset_def
  apply (rule logged_thenDo)
   apply (rule logged_doReset; simp add: assms)
  apply (rule logged_thenDo)
   apply (rule logged_doReset; simp add: assms)
  apply (rule logged_thenDo)
   apply (rule logged_doReset; simp add: assms)
  apply (rule logged_resetTable)
  apply (rule assms)
  done

lemma logged_eachCell:
  assumes "\<And>cell. P (OnMatchCell cell q)"
  shows "logged P s (eachCell f q cells s)"
proof (induction cells arbitrary: s)
  case Nil
  show ?case by (simp add: logged_refl)
next
  case (Cons cell cells)
  have "logged P (s\<lparr>matchCells := matchCells s @ [cell]\<rparr>)
          (invoke (OnMatchCell cell q) (f cell q) (s\<lparr>matchCells := matchCells s @ [cell]\<rparr>))"
    by (rule logged_invoke) (rule assms)
  then have "logged P (s\<lparr>matchCells := matchCells s @ [cell]\<rparr>) (eachCell f q (cell # cells) s)"
    unfolding eachCell.simps by (rule logged_case) (rule Cons.IH)
  then show ?case by (simp add: logged_def)
qed

lemma logged_opt_invoke:
  assumes "P ev" and "calls t = calls s"
  shows "logged P s (case cb of Some f \<Rightarrow> invoke ev (f x) t | None \<Rightarrow> Inr s)"
proof (cases cb)
  case None
  then show ?thesis by (simp add: logged_refl)
next
  case (Some f)
  have "logged P t (invoke ev (f x) t)" using assms(1) by (rule logged_invoke)
  with Some assms(2) show ?thesis by (simp add: logged_def)
qed

lemma logged_eachRowBody:
  assumes "\<And>cell. P (OnMatchCell cell q)" "\<And>x. P (OnMatchRow x)" "\<And>x. P (OnNoMatchRow x)"
  shows "logged P s (eachRowBody cfg q row s)"
proof -
  let ?cells = "findIn (page s) row (columnSelector cfg)"
  have cellsStep: "logged P s (case onMatchCell cfg of Some f \<Rightarrow> eachCell f q ?cells s | None \<Rightarrow> Inr s)"
    by (cases "onMatchCell cfg") (simp_all add: logged_refl logged_eachCell assms)
  have rowStep: "logged P s' (case onMatchRow cfg of
      Some f \<Rightarrow> invoke (OnMatchRow row) (f row) (s'\<lparr>matchRows := matchRows s' @ [row]\<rparr>)
    | None \<Rightarrow> Inr s')" for s'
    by (rule logged_opt_invoke) (simp_all add: assms)
  have noStep: "logged P s (case onNoMatchRow cfg of
      Some f \<Rightarrow> invoke (OnNoMatchRow row) (f row) (s\<lparr>noMatchRows := noMatchRows s @ [row]\<rparr>)
    | None \<Rightarrow> Inr s)"
    by (rule logged_opt_invoke) (simp_all add: assms)
  have "logged P s (thenDo (case onMatchCell cfg of Some f \<Rightarrow> eachCell f q ?cells s | None \<Rightarrow> Inr s)
      (\<lambda>s. case onMatchRow cfg of
          Some f \<Rightarrow> invoke (OnMatchRow row) (f row) (s\<lparr>matchRows := matchRows s @ [row]\<rparr>)
        | None \<Rightarrow> Inr s))"
    using cellsStep rowStep by (rule logged_thenDo)
  with noStep show ?thesis by (simp add: eachRowBody_def Let_def)
qed

lemma logged_eachRow:
  assumes "\<And>cell. P (OnMatchCell cell q)" "\<And>x. P (OnMatchRow x)" "\<And>x. P (OnNoMatchRow x)"
  shows "logged P s (eachRow cfg q rows s)"
proof (induction rows arbitrary: s)
  case Nil
  show ?case by (simp add: logged_refl)
next
  case (Cons row rows)
  have "logged P s (eachRowBody cfg q row s)" using assms by (rule logged_eachRowBody)
  then show ?case unfolding eachRow.simps by (rule logged_case) (rule Cons.IH)
qed

lemma logged_searchFor:
  assumes "\<And>x. P (ResetCell x)" "\<And>x. P (ResetMatchRow x)" "\<And>x. P (ResetNoMatchRow x)"
    "\<And>x. P (ResetTable x)" "\<And>x. P (OnStart x)" "\<And>x. P (OnCompleted x)"
    "\<And>cell. P (OnMatchCell cell (toLowerCase (trim query)))"
    "\<And>x. P (OnMatchRow x)" "\<And>x. P (OnNoMatchRow x)"
  shows "logged P s (searchFor cfg self query s)"
proof -
  let ?q = "toLowerCase (trim query)"
  have start: "logged P s' (case onStart cfg of Some f \<Rightarrow> invoke (OnStart self) (f self) s' | None \<Rightarrow> Inr s')" for s'
    by (rule logged_opt_invoke) (simp_all add: assms)
  have fin: "logged P s' (case onCompleted cfg of Some f \<Rightarrow> invoke (OnCompleted self) (f self) s' | None \<Rightarrow> Inr s')" for s'
    by (rule logged_opt_invoke) (simp_all add: assms)
  have rows: "logged P s' (eachRow cfg ?q (findIn (page s') self (rowSelector cfg)) s')" for s'
    using assms(7,8,9) by (rule logged_eachRow)
  have pass: "logged P s' (thenDo (case onStart cfg of Some f \<Rightarrow> invoke (OnStart self) (f self) s' | None \<Rightarrow> Inr s')
      (\<lambda>s. thenDo (eachRow cfg ?q (findIn (page s) self (rowSelector cfg)) s)
        (\<lambda>s. case onCompleted cfg of Some f \<Rightarrow> invoke (OnCompleted self) (f self) s | None \<Rightarrow> Inr s)))" for s'
    apply (rule logged_thenDo)
     apply (rule start)
    apply (rule logged_thenDo)
     apply (rule rows)
    apply (rule fin)
    done
  have "logged P s (reset cfg self s)" using assms(1-4) by (rule logged_reset)
  then show ?thesis
    unfolding searchFor_def
    by (rule logged_thenDo) (simp add: Let_def logged_refl pass)
qed

lemma eachCell_invariant:
  assumes "\<And>s x. g (s\<lparr>matchCells := x\<rparr>) = g s" and "\<And>ev f s. g (final (invoke ev f s)) = g s"
  shows "g (final (eachCell f q cells s)) = g s"
proof (induction cells arbitrary: s)
  case Nil
  show ?case by simp
next
  case (Cons cell cells)
  let ?s = "s\<lparr>matchCells := matchCells s @ [cell]\<rparr>"
  show ?case
  proof (cases "invoke (OnMatchCell cell q) (f cell q) ?s")
    case (Inl e)
    then have "g (final (eachCell f q (cell # cells) s))
        = g (final (invoke (OnMatchCell cell q) (f cell q) ?s))" by simp
    then show ?thesis by (simp add: assms)
  next
    case (Inr s')
    then have "g s' = g (final (invoke (OnMatchCell cell q) (f cell q) ?s))" by simp
    then have "g s' = g s" by (simp add: assms)
    with Inr Cons.IH [of s'] show ?thesis by simp
  qed
qed

lemma eachCell_frame [simp]:
  "matchRows (final (eachCell f q cells s)) = matchRows s"
  "noMatchRows (final (eachCell f q cells s)) = noMatchRows s"
  by (rule eachCell_invariant; simp)+

lemma opt_invoke_frame:
  "matchCells t = matchCells s \<Longrightarrow>
     matchCells (final (case cb of Some f \<Rightarrow> invoke ev (f x) t | None \<Rightarrow> Inr s)) = matchCells s"
  "matchRows t = matchRows s \<Longrightarrow>
     matchRows (final (case cb of Some f \<Rightarrow> invoke ev (f x) t | None \<Rightarrow> Inr s)) = matchRows s"
  "noMatchRows t = noMatchRows s \<Longrightarrow>
     noMatchRows (final (case cb of Some f \<Rightarrow> invoke ev (f x) t | None \<Rightarrow> Inr s)) = noMatchRows s"
  by (cases cb; simp)+

lemma eachRowBody_frame:
  "onMatchCell cfg = None \<Longrightarrow> matchCells (final (eachRowBody cfg q row s)) = matchCells s"
  "onMatchRow cfg = None \<Longrightarrow> matchRows (final (eachRowBody cfg q row s)) = matchRows s"
  "onNoMatchRow cfg = None \<Longrightarrow> noMatchRows (final (eachRowBody cfg q row s)) = noMatchRows s"
proof -
  let ?cells = "findIn (page s) row (columnSelector cfg)"
  let ?cellStep = "case onMatchCell cfg of Some f \<Rightarrow> eachCell f q ?cells s | None \<Rightarrow> Inr s"
  let ?rowStep = "\<lambda>s. case onMatchRow cfg of
      Some f \<Rightarrow> invoke (OnMatchRow row) (f row) (s\<lparr>matchRows := matchRows s @ [row]\<rparr>)
    | None \<Rightarrow> Inr s"
  let ?noStep = "case onNoMatchRow cfg of
      Some f \<Rightarrow> invoke (OnNoMatchRow row) (f row) (s\<lparr>noMatchRows := noMatchRows s @ [row]\<rparr>)
    | None \<Rightarrow> Inr s"
  have body: "eachRowBody cfg q row s =
      (if indexOf (toLowerCase (textOfAll (page s) ?cells)) q > - 1 then thenDo ?cellStep ?rowStep
       else ?noStep)"
    by (simp add: eachRowBody_def Let_def)
  show "matchCells (final (eachRowBody cfg q row s)) = matchCells s" if "onMatchCell cfg = None"
  proof -
    have "matchCells (final (thenDo ?cellStep ?rowStep)) = matchCells s"
      using that by (simp add: opt_invoke_frame)
    moreover have "matchCells (final ?noStep) = matchCells s"
      by (simp add: opt_invoke_frame)
    ultimately show ?thesis by (simp add: body)
  qed
  show "matchRows (final (eachRowBody cfg q row s)) = matchRows s" if "onMatchRow cfg = None"
  proof -
    have "matchRows (final ?cellStep) = matchRows s"
      by (cases "onMatchCell cfg") simp_all
    then have "matchRows (final (thenDo ?cellStep ?rowStep)) = matchRows s"
      using that by (cases ?cellStep) auto
    moreover have "matchRows (final ?noStep) = matchRows s"
      by (simp add: opt_invoke_frame)
    ultimately show ?thesis by (simp add: body)
  qed
  show "noMatchRows (final (eachRowBody cfg q row s)) = noMatchRows s" if "onNoMatchRow cfg = None"
  proof -
    have c: "noMatchRows (final ?cellStep) = noMatchRows s"
      by (cases "onMatchCell cfg") simp_all
    have "noMatchRows (final (thenDo ?cellStep ?rowStep)) = noMatchRows s"
    proof (cases ?cellStep)
      case (Inl e)
      with c show ?thesis by simp
    next
      case (Inr s')
      with c have "noMatchRows s' = noMatchRows s" by simp
      with Inr show ?thesis by (simp add: opt_invoke_frame)
    qed
    moreover have "noMatchRows (final ?noStep) = noMatchRows s"
      using that by simp
    ultimately show ?thesis by (simp add: body)
  qed
qed

lemma eachRow_invariant:
  assumes "\<And>row s. g (final (eachRowBody cfg q row s)) = g s"
  shows "g (final (eachRow cfg q rows s)) = g s"
proof (induction rows arbitrary: s)
  case Nil
  show ?case by simp
next
  case (Cons row rows)
  show ?case
  proof (cases "eachRowBody cfg q row s")
    case (Inl e)
    then have "g (final (eachRow cfg q (row # rows) s)) = g (final (eachRowBody cfg q row s))"
      by simp
    then show ?thesis by (simp add: assms)
  next
    case (Inr s')
    then have "g s' = g (final (eachRowBody cfg q row s))" by simp
    then have "g s' = g s" by (simp add: assms)
    with Inr Cons.IH [of s'] show ?thesis by simp
  qed
qed

text \<open>The match pass: what \<^verbatim>\<open>searchFor\<close> does after the reset.\<close>

lemma searchFor_invariant:
  assumes inv: "\<And>ev f s. g (final (invoke ev f s)) = g s"
    and rows: "\<And>q rows s. g (final (eachRow cfg q rows s)) = g s"
  shows "g (final (searchFor cfg self query s)) = g (final (reset cfg self s))"
proof (cases "reset cfg self s")
  case (Inl e)
  then show ?thesis by (simp add: searchFor_def)
next
  case (Inr s0)
  let ?q = "toLowerCase (trim query)"
  let ?start = "case onStart cfg of Some f \<Rightarrow> invoke (OnStart self) (f self) s0 | None \<Rightarrow> Inr s0"
  let ?fin = "\<lambda>s. case onCompleted cfg of Some f \<Rightarrow> invoke (OnCompleted self) (f self) s | None \<Rightarrow> Inr s"
  let ?pass = "thenDo ?start (\<lambda>s. thenDo (eachRow cfg ?q (findIn (page s) self (rowSelector cfg)) s) ?fin)"
  have fin: "g (final (?fin s)) = g s" for s
    by (cases "onCompleted cfg") (simp_all add: inv)
  have start: "g (final ?start) = g s0"
    by (cases "onStart cfg") (simp_all add: inv)
  have mid: "g (final (thenDo (eachRow cfg ?q rws s1) ?fin)) = g s1" for rws s1
  proof (cases "eachRow cfg ?q rws s1")
    case (Inl e)
    then have "g (final (thenDo (eachRow cfg ?q rws s1) ?fin)) = g (final (eachRow cfg ?q rws s1))"
      by simp
    then show ?thesis by (simp add: rows)
  next
    case (Inr s2)
    then have "g s2 = g (final (eachRow cfg ?q rws s1))" by simp
    then have "g s2 = g s1" by (simp add: rows)
    with Inr show ?thesis by (simp add: fin)
  qed
  have "g (final ?pass) = g s0"
  proof (cases ?start)
    case (Inl e)
    with start show ?thesis by simp
  next
    case (Inr s1)
    with start have "g s1 = g s0" by simp
    with Inr show ?thesis by (simp add: mid)
  qed
  with Inr show ?thesis by (simp add: searchFor_def Let_def)
qed

subsection \<open>Runs with well-behaved callbacks\<close>

lemma page_update_simps [simp]:
  "findIn (addClass e cl d) = findIn d" "textOf (addClass e cl d) = textOf d"
  "htmlOf (addClass e cl d) = htmlOf d"
  "findIn (removeClass e cl d) = findIn d" "textOf (removeClass e cl d) = textOf d"
  "htmlOf (removeClass e cl d) = htmlOf d"
  by (simp_all add: addClass_def removeClass_def)

lemma textOfAll_update [simp]:
  "textOfAll (d\<lparr>htmlOf := h\<rparr>) = textOfAll d"
  "textOfAll (addClass e cl d) = textOfAll d" "textOfAll (removeClass e cl d) = textOfAll d"
  by (simp_all add: textOfAll_def fun_eq_iff)

lemma toLowerCase_empty [simp]: "toLowerCase [] = []"
  by (simp add: toLowerCase_def)

lemma steady_refl: "steady s (Inr s)"
  by (simp add: steady_def)

lemma steady_invoke: "quiet f \<Longrightarrow> steady s (invoke ev f s)"
  unfolding quiet_def steady_def invoke_def Let_def
proof -
  assume q: "\<forall>d. \<exists>d'. f d = Inr d' \<and> findIn d' = findIn d \<and> textOf d' = textOf d"
  then obtain d' where "f (page s) = Inr d'" "findIn d' = findIn (page s)" "textOf d' = textOf (page s)"
    by blast
  then show "\<exists>s'. (case f (page (s\<lparr>calls := calls s @ [ev]\<rparr>)) of
      Inl e \<Rightarrow> Inl (e, s\<lparr>calls := calls s @ [ev]\<rparr>)
    | Inr d \<Rightarrow> Inr (s\<lparr>calls := calls s @ [ev], page := d\<rparr>)) = Inr s'
    \<and> findIn (page s') = findIn (page s) \<and> textOf (page s') = textOf (page s)"
    by simp
qed

lemma steady_page_cong:
  "page t = page s \<Longrightarrow> steady t r \<Longrightarrow> steady s r"
  by (simp add: steady_def)

lemma steady_thenDo:
  assumes "steady s r" and "\<And>s'. r = Inr s' \<Longrightarrow> steady s' (f s')"
  shows "steady s (thenDo r f)"
proof -
  from assms(1) obtain s' where r: "r = Inr s'" and p: "findIn (page s') = findIn (page s)"
    "textOf (page s') = textOf (page s)"
    by (auto simp: steady_def)
  from assms(2) [OF r] p r show ?thesis by (auto simp: steady_def)
qed

lemma steady_case:
  assumes "steady s r" and "\<And>s'. r = Inr s' \<Longrightarrow> steady s' (f s')"
  shows "steady s (case r of Inl e \<Rightarrow> Inl e | Inr s' \<Rightarrow> f s')"
  using steady_thenDo [OF assms] by (simp add: thenDo_def)

lemma steady_popAll:
  assumes "\<And>e. quiet (f e)" and "\<And>a s. page (put a s) = page s"
  shows "steady s (popAll put ev f arr s)"
proof (induction arr arbitrary: s rule: rev_induct)
  case Nil
  show ?case by (simp add: steady_refl)
next
  case (snoc x xs)
  have "steady (put xs s) (invoke (ev x) (f x) (put xs s))"
    by (rule steady_invoke) (rule assms)
  then have "steady (put xs s) (popAll put ev f (xs @ [x]) s)"
    unfolding popAll_snoc by (rule steady_case) (rule snoc.IH)
  then show ?case by (rule steady_page_cong [rotated]) (simp add: assms)
qed

lemma steady_doReset:
  assumes "quietOpt func" and "\<And>a s. page (put a s) = page s"
  shows "steady s (doReset get put ev func s)"
proof (cases func)
  case None
  then show ?thesis by (simp add: steady_refl)
next
  case (Some f)
  with assms(1) have "\<And>e. quiet (f e)" by (simp add: quietOpt_def)
  then have "steady s (popAll put ev f (get s) s)"
    using assms(2) by (rule steady_popAll)
  with Some show ?thesis by (simp add: doReset_def)
qed

lemma steady_opt_invoke:
  assumes "quietOpt cb" and "page t = page s"
  shows "steady s (case cb of Some f \<Rightarrow> invoke ev (f x) t | None \<Rightarrow> Inr s)"
proof (cases cb)
  case None
  then show ?thesis by (simp add: steady_refl)
next
  case (Some f)
  with assms(1) have "quiet (f x)" by (simp add: quietOpt_def)
  then have "steady t (invoke ev (f x) t)" by (rule steady_invoke)
  with Some assms(2) show ?thesis by (simp add: steady_def)
qed

lemma steady_reset:
  assumes "wellBehaved cfg q"
  shows "steady s (reset cfg self s)"
proof -
  from assms obtain f where f: "resetTable cfg = Some f" "\<And>e. quiet (f e)"
    by (auto simp: wellBehaved_def)
  have t: "steady s' (case resetTable cfg of None \<Rightarrow> Inl (TypeError, s')
      | Some f \<Rightarrow> invoke (ResetTable self) (f self) s')" for s'
    using f by (simp add: steady_invoke)
  from assms have q: "quietOpt (resetCell cfg)" "quietOpt (resetMatchRow cfg)"
    "quietOpt (resetNoMatchRow cfg)"
    by (simp_all add: wellBehaved_def)
  show ?thesis
    unfolding reset_def
    apply (rule steady_thenDo)
     apply (rule steady_doReset [OF q(1)], simp)
    apply (rule steady_thenDo)
     apply (rule steady_doReset [OF q(2)], simp)
    apply (rule steady_thenDo)
     apply (rule steady_doReset [OF q(3)], simp)
    apply (rule t)
    done
qed

lemma steady_eachCell:
  assumes "\<And>e. quiet (f e q)"
  shows "steady s (eachCell f q cells s)"
proof (induction cells arbitrary: s)
  case Nil
  show ?case by (simp add: steady_refl)
next
  case (Cons cell cells)
  let ?s = "s\<lparr>matchCells := matchCells s @ [cell]\<rparr>"
  have "steady ?s (invoke (OnMatchCell cell q) (f cell q) ?s)"
    by (rule steady_invoke) (rule assms)
  then have "steady ?s (eachCell f q (cell # cells) s)"
    unfolding eachCell.simps by (rule steady_case) (rule Cons.IH)
  then show ?case by (rule steady_page_cong [rotated]) simp
qed

lemma steady_eachRowBody:
  assumes "wellBehaved cfg q"
  shows "steady s (eachRowBody cfg q row s)"
proof -
  let ?cells = "findIn (page s) row (columnSelector cfg)"
  let ?cellStep = "case onMatchCell cfg of Some f \<Rightarrow> eachCell f q ?cells s | None \<Rightarrow> Inr s"
  let ?rowStep = "\<lambda>s. case onMatchRow cfg of
      Some f \<Rightarrow> invoke (OnMatchRow row) (f row) (s\<lparr>matchRows := matchRows s @ [row]\<rparr>)
    | None \<Rightarrow> Inr s"
  let ?noStep = "case onNoMatchRow cfg of
      Some f \<Rightarrow> invoke (OnNoMatchRow row) (f row) (s\<lparr>noMatchRows := noMatchRows s @ [row]\<rparr>)
    | None \<Rightarrow> Inr s"
  have body: "eachRowBody cfg q row s =
      (if indexOf (toLowerCase (textOfAll (page s) ?cells)) q > - 1 then thenDo ?cellStep ?rowStep
       else ?noStep)"
    by (simp add: eachRowBody_def Let_def)
  have c: "steady s ?cellStep"
    using assms by (cases "onMatchCell cfg") (simp_all add: steady_refl steady_eachCell wellBehaved_def)
  have r: "steady s' (?rowStep s')" for s'
    using assms by (intro steady_opt_invoke) (simp_all add: wellBehaved_def)
  have n: "steady s ?noStep"
    using assms by (intro steady_opt_invoke) (simp_all add: wellBehaved_def)
  have "steady s (thenDo ?cellStep ?rowStep)"
    using c r by (rule steady_thenDo)
  with n show ?thesis by (simp add: body)
qed

lemma calls_append [simp]:
  "matchRowCalls (xs @ ys) = matchRowCalls xs @ matchRowCalls ys"
  "noMatchRowCalls (xs @ ys) = noMatchRowCalls xs @ noMatchRowCalls ys"
  "matchCellCalls (xs @ ys) = matchCellCalls xs @ matchCellCalls ys"
proof -
  show "matchRowCalls (xs @ ys) = matchRowCalls xs @ matchRowCalls ys"
    by (induction xs rule: matchRowCalls.induct) simp_all
  show "noMatchRowCalls (xs @ ys) = noMatchRowCalls xs @ noMatchRowCalls ys"
    by (induction xs rule: noMatchRowCalls.induct) simp_all
  show "matchCellCalls (xs @ ys) = matchCellCalls xs @ matchCellCalls ys"
    by (induction xs rule: matchCellCalls.induct) simp_all
qed

lemma calls_of_cells [simp]:
  "matchRowCalls (map (\<lambda>c. OnMatchCell c q) cells) = []"
  "noMatchRowCalls (map (\<lambda>c. OnMatchCell c q) cells) = []"
  "matchCellCalls (map (\<lambda>c. OnMatchCell c q) cells) = map (\<lambda>c. (c, q)) cells"
  by (induction cells) simp_all

lemma steady_eachRow:
  assumes "\<And>row s. steady s (eachRowBody cfg q row s)"
  shows "steady s (eachRow cfg q rows s)"
proof (induction rows arbitrary: s)
  case Nil
  show ?case by (simp add: steady_refl)
next
  case (Cons row rows)
  have "steady s (eachRowBody cfg q row s)" by (rule assms)
  then show ?case unfolding eachRow.simps by (rule steady_case) (rule Cons.IH)
qed

lemma eachCell_Inr:
  "eachCell f q cells s = Inr s' \<Longrightarrow>
     matchCells s' = matchCells s @ cells \<and> matchRows s' = matchRows s
     \<and> noMatchRows s' = noMatchRows s \<and> calls s' = calls s @ map (\<lambda>c. OnMatchCell c q) cells"
proof (induction cells arbitrary: s)
  case Nil
  then show ?case by simp
next
  case (Cons cell cells)
  let ?s = "s\<lparr>matchCells := matchCells s @ [cell]\<rparr>"
  from Cons.prems obtain s1 where s1: "invoke (OnMatchCell cell q) (f cell q) ?s = Inr s1"
    and rest: "eachCell f q cells s1 = Inr s'"
    by (auto split: sum.splits)
  from invoke_Inr_lists [OF s1] have
    "matchCells s1 = matchCells s @ [cell]" "matchRows s1 = matchRows s"
    "noMatchRows s1 = noMatchRows s" "calls s1 = calls s @ [OnMatchCell cell q]"
    by simp_all
  with Cons.IH [OF rest] show ?case by simp
qed

text \<open>What one visit of a row adds to the arrays and to the log.\<close>

lemma eachRowBody_Inr:
  assumes "eachRowBody cfg q row s = Inr s'"
  shows "matchRows s' = matchRows s
        @ (if onMatchRow cfg \<noteq> None \<and> rowMatches cfg (page s) q row then [row] else [])"
    and "noMatchRows s' = noMatchRows s
        @ (if onNoMatchRow cfg \<noteq> None \<and> \<not> rowMatches cfg (page s) q row then [row] else [])"
    and "matchCells s' = matchCells s
        @ (if onMatchCell cfg \<noteq> None \<and> rowMatches cfg (page s) q row
           then findIn (page s) row (columnSelector cfg) else [])"
    and "matchRowCalls (calls s') = matchRowCalls (calls s)
        @ (if onMatchRow cfg \<noteq> None \<and> rowMatches cfg (page s) q row then [row] else [])"
    and "noMatchRowCalls (calls s') = noMatchRowCalls (calls s)
        @ (if onNoMatchRow cfg \<noteq> None \<and> \<not> rowMatches cfg (page s) q row then [row] else [])"
    and "matchCellCalls (calls s') = matchCellCalls (calls s)
        @ (if onMatchCell cfg \<noteq> None \<and> rowMatches cfg (page s) q row
           then map (\<lambda>c. (c, q)) (findIn (page s) row (columnSelector cfg)) else [])"
proof -
  let ?cells = "findIn (page s) row (columnSelector cfg)"
  let ?m = "rowMatches cfg (page s) q row"
  let ?cellStep = "case onMatchCell cfg of Some f \<Rightarrow> eachCell f q ?cells s | None \<Rightarrow> Inr s"
  let ?rowStep = "\<lambda>s. case onMatchRow cfg of
      Some f \<Rightarrow> invoke (OnMatchRow row) (f row) (s\<lparr>matchRows := matchRows s @ [row]\<rparr>)
    | None \<Rightarrow> Inr s"
  let ?noStep = "case onNoMatchRow cfg of
      Some f \<Rightarrow> invoke (OnNoMatchRow row) (f row) (s\<lparr>noMatchRows := noMatchRows s @ [row]\<rparr>)
    | None \<Rightarrow> Inr s"
  have body: "eachRowBody cfg q row s = (if ?m then thenDo ?cellStep ?rowStep else ?noStep)"
    by (simp add: eachRowBody_def Let_def indexOf_sublist rowMatches_def)
  have all: "matchRows s' = matchRows s @ (if onMatchRow cfg \<noteq> None \<and> ?m then [row] else [])
    \<and> noMatchRows s' = noMatchRows s @ (if onNoMatchRow cfg \<noteq> None \<and> \<not> ?m then [row] else [])
    \<and> matchCells s' = matchCells s @ (if onMatchCell cfg \<noteq> None \<and> ?m then ?cells else [])
    \<and> matchRowCalls (calls s') = matchRowCalls (calls s)
        @ (if onMatchRow cfg \<noteq> None \<and> ?m then [row] else [])
    \<and> noMatchRowCalls (calls s') = noMatchRowCalls (calls s)
        @ (if onNoMatchRow cfg \<noteq> None \<and> \<not> ?m then [row] else [])
    \<and> matchCellCalls (calls s') = matchCellCalls (calls s)
        @ (if onMatchCell cfg \<noteq> None \<and> ?m then map (\<lambda>c. (c, q)) ?cells else [])"
  proof (cases ?m)
    case False
    with assms body have n: "?noStep = Inr s'" by simp
    show ?thesis
    proof (cases "onNoMatchRow cfg")
      case None
      with n False show ?thesis by simp
    next
      case (Some f)
      with n have "invoke (OnNoMatchRow row) (f row) (s\<lparr>noMatchRows := noMatchRows s @ [row]\<rparr>) = Inr s'"
        by simp
      from invoke_Inr_lists [OF this] False Some show ?thesis by simp
    qed
  next
    case True
    with assms body obtain s1 where c: "?cellStep = Inr s1" and r: "?rowStep s1 = Inr s'"
      by (cases ?cellStep) auto
    have s1: "matchCells s1 = matchCells s @ (if onMatchCell cfg \<noteq> None then ?cells else [])
      \<and> matchRows s1 = matchRows s \<and> noMatchRows s1 = noMatchRows s
      \<and> matchRowCalls (calls s1) = matchRowCalls (calls s)
      \<and> noMatchRowCalls (calls s1) = noMatchRowCalls (calls s)
      \<and> matchCellCalls (calls s1) = matchCellCalls (calls s)
          @ (if onMatchCell cfg \<noteq> None then map (\<lambda>c. (c, q)) ?cells else [])"
    proof (cases "onMatchCell cfg")
      case None
      with c show ?thesis by simp
    next
      case (Some f)
      with c have "eachCell f q ?cells s = Inr s1" by simp
      from eachCell_Inr [OF this] Some show ?thesis by simp
    qed
    show ?thesis
    proof (cases "onMatchRow cfg")
      case None
      with r s1 True show ?thesis by simp
    next
      case (Some f)
      with r have "invoke (OnMatchRow row) (f row) (s1\<lparr>matchRows := matchRows s1 @ [row]\<rparr>) = Inr s'"
        by simp
      from invoke_Inr_lists [OF this] s1 True Some show ?thesis by simp
    qed
  qed
  from all show "matchRows s' = matchRows s
        @ (if onMatchRow cfg \<noteq> None \<and> rowMatches cfg (page s) q row then [row] else [])"
    and "noMatchRows s' = noMatchRows s
        @ (if onNoMatchRow cfg \<noteq> None \<and> \<not> rowMatches cfg (page s) q row then [row] else [])"
    and "matchCells s' = matchCells s
        @ (if onMatchCell cfg \<noteq> None \<and> rowMatches cfg (page s) q row
           then findIn (page s) row (columnSelector cfg) else [])"
    and "matchRowCalls (calls s') = matchRowCalls (calls s)
        @ (if onMatchRow cfg \<noteq> None \<and> rowMatches cfg (page s) q row then [row] else [])"
    and "noMatchRowCalls (calls s') = noMatchRowCalls (calls s)
        @ (if onNoMatchRow cfg \<noteq> None \<and> \<not> rowMatches cfg (page s) q row then [row] else [])"
    and "matchCellCalls (calls s') = matchCellCalls (calls s)
        @ (if onMatchCell cfg \<noteq> None \<and> rowMatches cfg (page s) q row
           then map (\<lambda>c. (c, q)) (findIn (page s) row (columnSelector cfg)) else [])"
    by simp_all
qed

text \<open>A view \<open>v\<close> of the state to which every visit of a row appends \<open>add\<close> of the row.\<close>

lemma eachRow_appends:
  assumes step: "\<And>row s s'. eachRowBody cfg q row s = Inr s' \<Longrightarrow> v s' = v s @ add (page s) row"
    and cong: "\<And>d d'. findIn d' = findIn d \<Longrightarrow> textOf d' = textOf d \<Longrightarrow> add d' = add d"
    and st: "\<And>row s. steady s (eachRowBody cfg q row s)"
  shows "eachRow cfg q rows s = Inr s' \<Longrightarrow> v s' = v s @ concat (map (add (page s)) rows)"
proof (induction rows arbitrary: s)
  case Nil
  then show ?case by simp
next
  case (Cons row rows)
  from st [of s row] obtain s1 where s1: "eachRowBody cfg q row s = Inr s1"
    and p: "findIn (page s1) = findIn (page s)" "textOf (page s1) = textOf (page s)"
    by (auto simp: steady_def)
  from Cons.prems s1 have rest: "eachRow cfg q rows s1 = Inr s'" by simp
  have "add (page s1) = add (page s)" using p by (rule cong)
  with Cons.IH [OF rest] step [OF s1] show ?case by simp
qed

lemma doReset_Inr_value:
  "doReset matchCells putMatchCells ev func s = Inr s' \<Longrightarrow>
     matchCells s' = (if func = None then matchCells s else [])"
  "doReset matchRows putMatchRows ev func s = Inr s' \<Longrightarrow>
     matchRows s' = (if func = None then matchRows s else [])"
  "doReset noMatchRows putNoMatchRows ev func s = Inr s' \<Longrightarrow>
     noMatchRows s' = (if func = None then noMatchRows s else [])"
  using doReset_Inr_done [of ev func s s'] by (cases func; simp)+

lemma reset_Inr_lists:
  assumes "reset cfg self s = Inr s0"
  shows "matchCells s0 = (if resetCell cfg = None then matchCells s else [])"
    and "matchRows s0 = (if resetMatchRow cfg = None then matchRows s else [])"
    and "noMatchRows s0 = (if resetNoMatchRow cfg = None then noMatchRows s else [])"
proof -
  from assms obtain sa sb sc f where
    a: "doReset matchCells putMatchCells ResetCell (resetCell cfg) s = Inr sa" and
    b: "doReset matchRows putMatchRows ResetMatchRow (resetMatchRow cfg) sa = Inr sb" and
    c: "doReset noMatchRows putNoMatchRows ResetNoMatchRow (resetNoMatchRow cfg) sb = Inr sc" and
    t: "invoke (ResetTable self) (f self) sc = Inr s0"
    by (rule reset_Inr)
  show "matchCells s0 = (if resetCell cfg = None then matchCells s else [])"
    using doReset_Inr_value(1) [OF a] b c t by (simp add: doReset_Inr_frame invoke_Inr_frame)
  show "matchRows s0 = (if resetMatchRow cfg = None then matchRows s else [])"
    using doReset_Inr_value(2) [OF b] a c t by (simp add: doReset_Inr_frame invoke_Inr_frame)
  show "noMatchRows s0 = (if resetNoMatchRow cfg = None then noMatchRows s else [])"
    using doReset_Inr_value(3) [OF c] a b t by (simp add: doReset_Inr_frame invoke_Inr_frame)
qed

lemma reset_Inr_calls:
  assumes "reset cfg self s = Inr s0"
  shows "matchRowCalls (calls s0) = matchRowCalls (calls s)"
    and "noMatchRowCalls (calls s0) = noMatchRowCalls (calls s)"
    and "matchCellCalls (calls s0) = matchCellCalls (calls s)"
proof -
  let ?P = "\<lambda>c. \<exists>x. c = ResetCell x \<or> c = ResetMatchRow x \<or> c = ResetNoMatchRow x \<or> c = ResetTable x"
  have "logged ?P s (reset cfg self s)" by (rule logged_reset) auto
  with assms obtain new where new: "calls s0 = calls s @ new" "list_all ?P new"
    by (auto simp: logged_def)
  from new(2) have "matchRowCalls new = [] \<and> noMatchRowCalls new = [] \<and> matchCellCalls new = []"
    by (induction new) auto
  with new(1) show "matchRowCalls (calls s0) = matchRowCalls (calls s)"
    and "noMatchRowCalls (calls s0) = noMatchRowCalls (calls s)"
    and "matchCellCalls (calls s0) = matchCellCalls (calls s)"
    by simp_all
qed

lemma rowMatches_cong:
  "findIn d' = findIn d \<Longrightarrow> textOf d' = textOf d \<Longrightarrow> rowMatches cfg d' q = rowMatches cfg d q"
  by (rule ext) (simp add: rowMatches_def textOfAll_def)

text \<open>The whole run, for a view to which the start and completed calls add nothing.\<close>

lemma searchFor_appends:
  assumes wb: "wellBehaved cfg (toLowerCase (trim query))" and ne: "trim query \<noteq> []"
    and step: "\<And>row s s'. eachRowBody cfg (toLowerCase (trim query)) row s = Inr s' \<Longrightarrow>
        v s' = v s @ add (page s) row"
    and cong: "\<And>d d'. findIn d' = findIn d \<Longrightarrow> textOf d' = textOf d \<Longrightarrow> add d' = add d"
    and inv: "\<And>ev f s s'. invoke ev f s = Inr s' \<Longrightarrow> ev = OnStart self \<or> ev = OnCompleted self \<Longrightarrow>
        v s' = v s"
  shows "\<exists>s0 s'. reset cfg self s = Inr s0 \<and> searchFor cfg self query s = Inr s'
    \<and> v s' = v s0 @ concat (map (add (page s)) (findIn (page s) self (rowSelector cfg)))"
proof -
  let ?q = "toLowerCase (trim query)"
  from steady_reset [OF wb, of s self] obtain s0 where s0: "reset cfg self s = Inr s0"
    and p0: "findIn (page s0) = findIn (page s)" "textOf (page s0) = textOf (page s)"
    by (auto simp: steady_def)
  let ?start = "case onStart cfg of Some f \<Rightarrow> invoke (OnStart self) (f self) s0 | None \<Rightarrow> Inr s0"
  have "steady s0 ?start"
    using wb by (intro steady_opt_invoke) (simp_all add: wellBehaved_def)
  then obtain s1 where s1: "?start = Inr s1"
    and p1: "findIn (page s1) = findIn (page s0)" "textOf (page s1) = textOf (page s0)"
    by (auto simp: steady_def)
  have v1: "v s1 = v s0"
    using s1 by (cases "onStart cfg") (auto dest: inv)
  let ?rows = "findIn (page s1) self (rowSelector cfg)"
  have "steady s1 (eachRow cfg ?q ?rows s1)"
    by (rule steady_eachRow) (rule steady_eachRowBody [OF wb])
  then obtain s2 where s2: "eachRow cfg ?q ?rows s1 = Inr s2"
    and p2: "findIn (page s2) = findIn (page s1)" "textOf (page s2) = textOf (page s1)"
    by (auto simp: steady_def)
  have "v s2 = v s1 @ concat (map (add (page s1)) ?rows)"
    using step cong steady_eachRowBody [OF wb] s2 by (rule eachRow_appends)
  moreover have "add (page s1) = add (page s)"
    by (rule cong) (simp_all add: p0 p1)
  ultimately have v2: "v s2 = v s0 @ concat (map (add (page s)) (findIn (page s) self (rowSelector cfg)))"
    by (simp add: v1 p0 p1)
  let ?fin = "case onCompleted cfg of Some f \<Rightarrow> invoke (OnCompleted self) (f self) s2 | None \<Rightarrow> Inr s2"
  have "steady s2 ?fin"
    using wb by (intro steady_opt_invoke) (simp_all add: wellBehaved_def)
  then obtain s3 where s3: "?fin = Inr s3" by (auto simp: steady_def)
  have v3: "v s3 = v s2"
    using s3 by (cases "onCompleted cfg") (auto dest: inv)
  have "searchFor cfg self query s = Inr s3"
    using s0 s1 s2 s3 ne by (simp add: searchFor_def Let_def)
  with s0 v2 v3 show ?thesis by simp
qed

lemma concat_rows:
  "concat (map (\<lambda>row. if c \<and> rowMatches cfg d q row then [row] else []) rows)
     = (if c then matchingRows cfg d q rows else [])"
  "concat (map (\<lambda>row. if c \<and> \<not> rowMatches cfg d q row then [row] else []) rows)
     = (if c then otherRows cfg d q rows else [])"
  "concat (map (\<lambda>row. if c \<and> rowMatches cfg d q row then findIn d row (columnSelector cfg) else []) rows)
     = (if c then matchingCells cfg d q rows else [])"
  "concat (map (\<lambda>row. if c \<and> rowMatches cfg d q row
        then map (\<lambda>x. (x, q)) (findIn d row (columnSelector cfg)) else []) rows)
     = (if c then map (\<lambda>x. (x, q)) (matchingCells cfg d q rows) else [])"
  by (induction rows) (simp_all add: matchingRows_def otherRows_def matchingCells_def)

lemma searchFor_view:
  assumes wb: "wellBehaved cfg (toLowerCase (trim query))" and ne: "trim query \<noteq> []"
    and s0: "reset cfg self s = Inr s0" and s': "searchFor cfg self query s = Inr s'"
    and step: "\<And>row s s'. eachRowBody cfg (toLowerCase (trim query)) row s = Inr s' \<Longrightarrow>
        v s' = v s @ add (page s) row"
    and cong: "\<And>d d'. findIn d' = findIn d \<Longrightarrow> textOf d' = textOf d \<Longrightarrow> add d' = add d"
    and inv: "\<And>ev f s s'. invoke ev f s = Inr s' \<Longrightarrow> ev = OnStart self \<or> ev = OnCompleted self \<Longrightarrow>
        v s' = v s"
  shows "v s' = v s0 @ concat (map (add (page s)) (findIn (page s) self (rowSelector cfg)))"
proof -
  from wb ne step cong inv
  have "\<exists>s0 s'. reset cfg self s = Inr s0 \<and> searchFor cfg self query s = Inr s'
    \<and> v s' = v s0 @ concat (map (add (page s)) (findIn (page s) self (rowSelector cfg)))"
    by (rule searchFor_appends)
  with s0 s' show ?thesis by simp
qed

lemma searchFor_returns:
  assumes "wellBehaved cfg (toLowerCase (trim query))" and "trim query \<noteq> []"
  shows "\<exists>s0 s'. reset cfg self s = Inr s0 \<and> searchFor cfg self query s = Inr s'"
  using searchFor_appends [where v = "\<lambda>s. [] :: nat list" and add = "\<lambda>d row. []"
      and cfg = cfg and query = query and self = self and s = s, OF assms]
  by auto

text \<open>The arrays and the calls after a run with well-behaved callbacks, from the state
  \<open>s0\<close> that the reset at the start of the run returned.\<close>

lemma searchFor_tally:
  assumes wb: "wellBehaved cfg (toLowerCase (trim query))" and ne: "trim query \<noteq> []"
    and s0: "reset cfg self s = Inr s0" and s': "searchFor cfg self query s = Inr s'"
  shows "matchRows s' = matchRows s0 @ (if onMatchRow cfg = None then []
        else matchingRows cfg (page s) (toLowerCase (trim query)) (findIn (page s) self (rowSelector cfg)))"
    and "noMatchRows s' = noMatchRows s0 @ (if onNoMatchRow cfg = None then []
        else otherRows cfg (page s) (toLowerCase (trim query)) (findIn (page s) self (rowSelector cfg)))"
    and "matchCells s' = matchCells s0 @ (if onMatchCell cfg = None then []
        else matchingCells cfg (page s) (toLowerCase (trim query)) (findIn (page s) self (rowSelector cfg)))"
    and "matchRowCalls (calls s') = matchRowCalls (calls s0) @ (if onMatchRow cfg = None then []
        else matchingRows cfg (page s) (toLowerCase (trim query)) (findIn (page s) self (rowSelector cfg)))"
    and "noMatchRowCalls (calls s') = noMatchRowCalls (calls s0) @ (if onNoMatchRow cfg = None then []
        else otherRows cfg (page s) (toLowerCase (trim query)) (findIn (page s) self (rowSelector cfg)))"
    and "matchCellCalls (calls s') = matchCellCalls (calls s0) @ (if onMatchCell cfg = None then []
        else map (\<lambda>c. (c, toLowerCase (trim query)))
          (matchingCells cfg (page s) (toLowerCase (trim query)) (findIn (page s) self (rowSelector cfg))))"
proof -
  let ?q = "toLowerCase (trim query)"
  let ?rows = "findIn (page s) self (rowSelector cfg)"
  let ?v = "matchRows"
  let ?add = "\<lambda>d row. if onMatchRow cfg \<noteq> None \<and> rowMatches cfg d ?q row then [row] else []"
  have "matchRows s' = matchRows s0 @ concat (map
      ((\<lambda>d row. if onMatchRow cfg \<noteq> None \<and> rowMatches cfg d ?q row then [row] else []) (page s)) ?rows)"
    using wb ne s0 s'
  proof (rule searchFor_view [where v = matchRows])
    fix row s s' assume "eachRowBody cfg ?q row s = Inr s'"
    then show "matchRows s' = matchRows s
        @ (if onMatchRow cfg \<noteq> None \<and> rowMatches cfg (page s) ?q row then [row] else [])"
      by (rule eachRowBody_Inr)
  next
    fix d d' :: dom assume a: "findIn d' = findIn d" "textOf d' = textOf d"
    from rowMatches_cong [OF a] a(1)
    show "?add d' = ?add d" by (simp cong: if_cong)
  next
    fix ev f s s' assume "invoke ev f s = Inr s'"
    then show "?v s' = ?v s" by (simp add: invoke_Inr_lists)
  qed
  then show "matchRows s' = matchRows s0 @ (if onMatchRow cfg = None then []
        else matchingRows cfg (page s) ?q ?rows)"
    by (simp add: concat_rows)
  let ?v = "noMatchRows"
  let ?add = "\<lambda>d row. if onNoMatchRow cfg \<noteq> None \<and> \<not> rowMatches cfg d ?q row then [row] else []"
  have "noMatchRows s' = noMatchRows s0 @ concat (map
      ((\<lambda>d row. if onNoMatchRow cfg \<noteq> None \<and> \<not> rowMatches cfg d ?q row then [row] else []) (page s)) ?rows)"
    using wb ne s0 s'
  proof (rule searchFor_view [where v = noMatchRows])
    fix row s s' assume "eachRowBody cfg ?q row s = Inr s'"
    then show "noMatchRows s' = noMatchRows s
        @ (if onNoMatchRow cfg \<noteq> None \<and> \<not> rowMatches cfg (page s) ?q row then [row] else [])"
      by (rule eachRowBody_Inr)
  next
    fix d d' :: dom assume a: "findIn d' = findIn d" "textOf d' = textOf d"
    from rowMatches_cong [OF a] a(1)
    show "?add d' = ?add d" by (simp cong: if_cong)
  next
    fix ev f s s' assume "invoke ev f s = Inr s'"
    then show "?v s' = ?v s" by (simp add: invoke_Inr_lists)
  qed
  then show "noMatchRows s' = noMatchRows s0 @ (if onNoMatchRow cfg = None then []
        else otherRows cfg (page s) ?q ?rows)"
    by (simp add: concat_rows)
  let ?v = "matchCells"
  let ?add = "\<lambda>d row. if onMatchCell cfg \<noteq> None \<and> rowMatches cfg d ?q row
          then findIn d row (columnSelector cfg) else []"
  have "matchCells s' = matchCells s0 @ concat (map
      ((\<lambda>d row. if onMatchCell cfg \<noteq> None \<and> rowMatches cfg d ?q row
          then findIn d row (columnSelector cfg) else []) (page s)) ?rows)"
    using wb ne s0 s'
  proof (rule searchFor_view [where v = matchCells])
    fix row s s' assume "eachRowBody cfg ?q row s = Inr s'"
    then show "matchCells s' = matchCells s
        @ (if onMatchCell cfg \<noteq> None \<and> rowMatches cfg (page s) ?q row
           then findIn (page s) row (columnSelector cfg) else [])"
      by (rule eachRowBody_Inr)
  next
    fix d d' :: dom assume a: "findIn d' = findIn d" "textOf d' = textOf d"
    from rowMatches_cong [OF a] a(1)
    show "?add d' = ?add d" by (simp cong: if_cong)
  next
    fix ev f s s' assume "invoke ev f s = Inr s'"
    then show "?v s' = ?v s" by (simp add: invoke_Inr_lists)
  qed
  then show "matchCells s' = matchCells s0 @ (if onMatchCell cfg = None then []
        else matchingCells cfg (page s) ?q ?rows)"
    by (simp add: concat_rows)
  let ?v = "\<lambda>s. matchRowCalls (calls s)"
  let ?add = "\<lambda>d row. if onMatchRow cfg \<noteq> None \<and> rowMatches cfg d ?q row then [row] else []"
  have "matchRowCalls (calls s') = matchRowCalls (calls s0) @ concat (map
      ((\<lambda>d row. if onMatchRow cfg \<noteq> None \<and> rowMatches cfg d ?q row then [row] else []) (page s)) ?rows)"
    using wb ne s0 s'
  proof (rule searchFor_view [where v = "\<lambda>s. matchRowCalls (calls s)"])
    fix row s s' assume "eachRowBody cfg ?q row s = Inr s'"
    then show "matchRowCalls (calls s') = matchRowCalls (calls s)
        @ (if onMatchRow cfg \<noteq> None \<and> rowMatches cfg (page s) ?q row then [row] else [])"
      by (rule eachRowBody_Inr)
  next
    fix ev f s s' assume "invoke ev f s = Inr s'" "ev = OnStart self \<or> ev = OnCompleted self"
    then show "matchRowCalls (calls s') = matchRowCalls (calls s)"
      using invoke_Inr_lists(4) [of ev f s s'] by auto
  next
    fix d d' :: dom assume a: "findIn d' = findIn d" "textOf d' = textOf d"
    from rowMatches_cong [OF a] a(1)
    show "?add d' = ?add d" by (simp cong: if_cong)
  qed
  then show "matchRowCalls (calls s') = matchRowCalls (calls s0) @ (if onMatchRow cfg = None then []
        else matchingRows cfg (page s) ?q ?rows)"
    by (simp add: concat_rows)
  let ?v = "\<lambda>s. noMatchRowCalls (calls s)"
  let ?add = "\<lambda>d row. if onNoMatchRow cfg \<noteq> None \<and> \<not> rowMatches cfg d ?q row then [row] else []"
  have "noMatchRowCalls (calls s') = noMatchRowCalls (calls s0) @ concat (map
      ((\<lambda>d row. if onNoMatchRow cfg \<noteq> None \<and> \<not> rowMatches cfg d ?q row then [row] else []) (page s)) ?rows)"
    using wb ne s0 s'
  proof (rule searchFor_view [where v = "\<lambda>s. noMatchRowCalls (calls s)"])
    fix row s s' assume "eachRowBody cfg ?q row s = Inr s'"
    then show "noMatchRowCalls (calls s') = noMatchRowCalls (calls s)
        @ (if onNoMatchRow cfg \<noteq> None \<and> \<not> rowMatches cfg (page s) ?q row then [row] else [])"
      by (rule eachRowBody_Inr)
  next
    fix ev f s s' assume "invoke ev f s = Inr s'" "ev = OnStart self \<or> ev = OnCompleted self"
    then show "noMatchRowCalls (calls s') = noMatchRowCalls (calls s)"
      using invoke_Inr_lists(4) [of ev f s s'] by auto
  next
    fix d d' :: dom assume a: "findIn d' = findIn d" "textOf d' = textOf d"
    from rowMatches_cong [OF a] a(1)
    show "?add d' = ?add d" by (simp cong: if_cong)
  qed
  then show "noMatchRowCalls (calls s') = noMatchRowCalls (calls s0) @ (if onNoMatchRow cfg = None then []
        else otherRows cfg (page s) ?q ?rows)"
    by (simp add: concat_rows)
  let ?v = "\<lambda>s. matchCellCalls (calls s)"
  let ?add = "\<lambda>d row. if onMatchCell cfg \<noteq> None \<and> rowMatches cfg d ?q row
          then map (\<lambda>c. (c, ?q)) (findIn d row (columnSelector cfg)) else []"
  have "matchCellCalls (calls s') = matchCellCalls (calls s0) @ concat (map
      ((\<lambda>d row. if onMatchCell cfg \<noteq> None \<and> rowMatches cfg d ?q row
          then map (\<lambda>c. (c, ?q)) (findIn d row (columnSelector cfg)) else []) (page s)) ?rows)"
    using wb ne s0 s'
  proof (rule searchFor_view [where v = "\<lambda>s. matchCellCalls (calls s)"])
    fix row s s' assume "eachRowBody cfg ?q row s = Inr s'"
    then show "matchCellCalls (calls s') = matchCellCalls (calls s)
        @ (if onMatchCell cfg \<noteq> None \<and> rowMatches cfg (page s) ?q row
           then map (\<lambda>c. (c, ?q)) (findIn (page s) row (columnSelector cfg)) else [])"
      by (rule eachRowBody_Inr)
  next
    fix ev f s s' assume "invoke ev f s = Inr s'" "ev = OnStart self \<or> ev = OnCompleted self"
    then show "matchCellCalls (calls s') = matchCellCalls (calls s)"
      using invoke_Inr_lists(4) [of ev f s s'] by auto
  next
    fix d d' :: dom assume a: "findIn d' = findIn d" "textOf d' = textOf d"
    from rowMatches_cong [OF a] a(1)
    show "?add d' = ?add d" by (simp cong: if_cong)
  qed
  then show "matchCellCalls (calls s') = matchCellCalls (calls s0) @ (if onMatchCell cfg = None then []
        else map (\<lambda>c. (c, ?q)) (matchingCells cfg (page s) ?q ?rows))"
    by (simp add: concat_rows)
qed

lemma quiet_highlightText:
  assumes "text = [] \<or> (\<exists>r. parseRe (patternFor text) 0 [] [] [] = Inr r)"
  shows "quiet (highlightText e text)"
  using assms by (auto simp: quiet_def highlightText_def newHtml_def Let_def)

lemma wellBehaved_configWith:
  assumes "\<exists>r. parseRe (patternFor q) 0 [] [] [] = Inr r"
  shows "wellBehaved (configWith matchClass resultsClass busyClass) q"
proof -
  have "quiet (highlightText e q)" and "quiet (highlightText e [])" for e
    using assms by (simp_all add: quiet_highlightText)
  moreover have "quiet (\<lambda>d. Inr (addClass e cl d))" and "quiet (\<lambda>d. Inr (removeClass e cl d))"
    and "quiet (\<lambda>d. Inr (addClass e cl (removeClass e cl' d)))" for e cl cl'
    by (simp_all add: quiet_def)
  ultimately show ?thesis
    by (simp add: wellBehaved_def quietOpt_def configWith_def)
qed

subsection \<open>Marking and unmarking\<close>




lemma canonicalize_lt' [simp]: "canonicalize CHR ''<'' = CHR ''<''"
  by (simp add: canonicalize_def)








declare replaceAll.simps [simp del]




declare rmatch.simps(9) [simp del]





lemma groupsOf_lits [simp]: "groupsOf (seqOf (map Lit t)) = []"
  by (induction t) simp_all







section \<open>Running the example\<close>

text \<open>The fields of the example configurations and of the example page, and the string
  computations of the runs below, so that a run on the example is evaluated step by step.\<close>

lemma defaultConfig_fields:
  "columnSelector defaultConfig = ''.searchable''"
  "rowSelector defaultConfig = ''tbody > tr''"
  "onMatchCell defaultConfig = Some (\<lambda>cell query. highlightText cell query)"
  "resetCell defaultConfig = Some (\<lambda>cell. highlightText cell [])"
  "onMatchRow defaultConfig = Some (\<lambda>row d. Inr (addClass row ''tablesearch-match'' d))"
  "onNoMatchRow defaultConfig = None"
  "resetMatchRow defaultConfig = Some (\<lambda>row d. Inr (removeClass row ''tablesearch-match'' d))"
  "resetNoMatchRow defaultConfig = None"
  "onStart defaultConfig = Some (\<lambda>table d. Inr (addClass table ''tablesearch-searching'' d))"
  "onCompleted defaultConfig = Some (\<lambda>table d.
     Inr (addClass table ''tablesearch-results'' (removeClass table ''tablesearch-searching'' d)))"
  "resetTable defaultConfig = Some (\<lambda>table d. Inr (removeClass table ''tablesearch-results'' d))"
  by (simp_all add: defaultConfig_def configWith_def)

lemma noMatchConfig_fields:
  "columnSelector noMatchConfig = ''.searchable''"
  "rowSelector noMatchConfig = ''tbody > tr''"
  "onMatchCell noMatchConfig = Some (\<lambda>cell query. highlightText cell query)"
  "resetCell noMatchConfig = Some (\<lambda>cell. highlightText cell [])"
  "onMatchRow noMatchConfig = Some (\<lambda>row d. Inr (addClass row ''tablesearch-match'' d))"
  "onNoMatchRow noMatchConfig = Some (\<lambda>row d. Inr (addClass row ''tablesearch-nomatch'' d))"
  "resetMatchRow noMatchConfig = Some (\<lambda>row d. Inr (removeClass row ''tablesearch-match'' d))"
  "resetNoMatchRow noMatchConfig = None"
  "onStart noMatchConfig = Some (\<lambda>table d. Inr (addClass table ''tablesearch-searching'' d))"
  "onCompleted noMatchConfig = Some (\<lambda>table d.
     Inr (addClass table ''tablesearch-results'' (removeClass table ''tablesearch-searching'' d)))"
  "resetTable noMatchConfig = Some (\<lambda>table d. Inr (removeClass table ''tablesearch-results'' d))"
  by (simp_all add: noMatchConfig_def defaultConfig_fields)

lemma silentConfig_fields:
  "columnSelector silentConfig = ''.searchable''"
  "rowSelector silentConfig = ''tbody > tr''"
  "onMatchCell silentConfig = None"
  "resetCell silentConfig = Some (\<lambda>cell. highlightText cell [])"
  "onMatchRow silentConfig = None"
  "onNoMatchRow silentConfig = None"
  "resetMatchRow silentConfig = Some (\<lambda>row d. Inr (removeClass row ''tablesearch-match'' d))"
  "resetNoMatchRow silentConfig = None"
  "onStart silentConfig = Some (\<lambda>table d. Inr (addClass table ''tablesearch-searching'' d))"
  "onCompleted silentConfig = Some (\<lambda>table d.
     Inr (addClass table ''tablesearch-results'' (removeClass table ''tablesearch-searching'' d)))"
  "resetTable silentConfig = Some (\<lambda>table d. Inr (removeClass table ''tablesearch-results'' d))"
  by (simp_all add: silentConfig_def defaultConfig_fields)

lemma examplePage_fields:
  "findIn examplePage 5 ''tbody > tr'' = [10, 20]"
  "findIn examplePage 10 ''.searchable'' = [11, 12]"
  "findIn examplePage 20 ''.searchable'' = [21, 22]"
  "textOf examplePage 11 = ''Alice''" "textOf examplePage 12 = ''Bob''"
  "textOf examplePage 21 = ''Catherine''" "textOf examplePage 22 = ''Smith''"
  "htmlOf examplePage 11 = ''Alice''" "htmlOf examplePage 12 = ''Bob''"
  "htmlOf examplePage 21 = ''Catherine''" "htmlOf examplePage 22 = ''Smith''"
  "classOf examplePage e = []"
  by (simp_all add: examplePage_def)

lemma example_strings:
  "trim ''cat'' = ''cat''" "toLowerCase ''cat'' = ''cat''"
  "trim '' CAT '' = ''CAT''" "toLowerCase ''CAT'' = ''cat''"
  "trim ''   '' = []"
  "indexOf (toLowerCase (textOfAll examplePage [11, 12])) ''cat'' = - 1"
  "indexOf (toLowerCase (textOfAll examplePage [21, 22])) ''cat'' = 0"
  "indexOf (toLowerCase ''Smith'') ''cat'' = - 1"
  "indexOf (toLowerCase (textOfAll examplePage [11, 12])) [] = 0"
  "newHtml ''Catherine'' ''cat'' = Inr ''<mark>Cat</mark>herine''"
  "newHtml ''Smith'' ''cat'' = Inr ''Smith''"
  "newHtml ''<mark>Cat</mark>herine'' [] = Inr ''Catherine''"
  "newHtml ''Smith'' [] = Inr ''Smith''"
  by code_simp+

lemma example_parses:
  "case parseRe (patternFor ''cat'') 0 [] [] [] of Inr r \<Rightarrow> True | Inl e \<Rightarrow> False"
  by code_simp

lemma example_wellBehaved: "wellBehaved defaultConfig ''cat''"
proof -
  from example_parses have "\<exists>r. parseRe (patternFor ''cat'') 0 [] [] [] = Inr r"
    by (cases "parseRe (patternFor ''cat'') 0 [] [] []") auto
  then show ?thesis unfolding defaultConfig_def by (rule wellBehaved_configWith)
qed

lemma example_rows:
  "matchingRows defaultConfig examplePage ''cat'' [10, 20] = [20]"
  "otherRows defaultConfig examplePage ''cat'' [10, 20] = [10]"
  "matchingCells defaultConfig examplePage ''cat'' [10, 20] = [21, 22]"
  by (simp_all add: matchingRows_def otherRows_def matchingCells_def rowMatches_def
      indexOf_sublist [symmetric] defaultConfig_fields examplePage_fields example_strings)



lemma popAll_Cons:
  "popAll put ev f (x # xs) s =
     (case invoke (ev (last (x # xs))) (f (last (x # xs))) (put (butlast (x # xs)) s) of
        Inl e \<Rightarrow> Inl e
      | Inr s' \<Rightarrow> popAll put ev f (butlast (x # xs)) s')"
  by (simp add: popAll.simps [of _ _ _ "x # xs"])

lemmas run_simps =
  popAll_Cons putMatchCells_def putMatchRows_def putNoMatchRows_def
  searchFor_def reset_def doReset_def newInstance_def invoke_def eachRowBody_def
  highlightText_def Let_def examplePage_fields example_strings

section \<open>The claims\<close>




text \<open>
  C2. The claim is that the matched-cell list holds exactly the cells whose own text
  contains the query. The code records, and calls \<^verbatim>\<open>onMatchCell\<close> for, every searchable
  cell of a matching row (``Called for each cell (td) within a matching row'', as the
  comment on \<^verbatim>\<open>onMatchCell\<close> says): after a search for ``cat'' the cell ``Smith'' is in
  \<^verbatim>\<open>matchCells\<close> and \<^verbatim>\<open>onMatchCell\<close> was called for it, though its text does not
  contain ``cat''.
\<close>

theorem searchFor_cells_counterexample:
  "matchCells (final (searchFor defaultConfig 5 ''cat'' (newInstance examplePage))) = [21, 22]
   \<and> (22, ''cat'') \<in> set (matchCellCalls (calls (final (searchFor defaultConfig 5 ''cat''
        (newInstance examplePage)))))
   \<and> \<not> sublist ''cat'' (toLowerCase (textOf examplePage 22))"
  by (simp add: run_simps defaultConfig_fields indexOf_sublist [symmetric])

text \<open>
  C2, as amended. For every query whose trimmed form is not empty, and callbacks that
  return normally and leave the rows, cells and texts of the page alone: where
  \<^verbatim>\<open>onMatchCell\<close> is a function, \<^verbatim>\<open>searchFor\<close> appends to \<^verbatim>\<open>matchCells\<close>, and calls
  \<^verbatim>\<open>onMatchCell\<close> with the normalised query for, every searchable cell of every
  matching row, row by row in document order, whether or not the cell's own text
  contains the query (and nothing where \<^verbatim>\<open>onMatchCell\<close> is not a function). The array
  starts from what the reset at the start of the run left.
\<close>

theorem searchFor_cells:
  assumes "wellBehaved cfg (toLowerCase (trim query))" and "trim query \<noteq> []"
  shows "\<exists>s'. searchFor cfg self query s = Inr s'
    \<and> matchCells s' = (if resetCell cfg = None then matchCells s else [])
        @ (if onMatchCell cfg = None then []
           else matchingCells cfg (page s) (toLowerCase (trim query)) (findIn (page s) self (rowSelector cfg)))
    \<and> matchCellCalls (calls s') = matchCellCalls (calls s)
        @ (if onMatchCell cfg = None then []
           else map (\<lambda>c. (c, toLowerCase (trim query)))
             (matchingCells cfg (page s) (toLowerCase (trim query)) (findIn (page s) self (rowSelector cfg))))"
proof -
  from searchFor_returns [OF assms, of self s]
  obtain s0 s' where s0: "reset cfg self s = Inr s0" and s': "searchFor cfg self query s = Inr s'"
    by blast
  note t = searchFor_tally [OF assms s0 s']
  note l = reset_Inr_lists [OF s0] reset_Inr_calls [OF s0]
  from s' t(3,6) l show ?thesis by simp
qed

theorem searchFor_cells_witness:
  "wellBehaved defaultConfig (toLowerCase (trim ''cat'')) \<and> trim ''cat'' \<noteq> []
   \<and> (\<exists>s'. searchFor defaultConfig 5 ''cat'' (newInstance examplePage) = Inr s'
         \<and> matchCells s' = [21, 22]
         \<and> matchCellCalls (calls s') = [(21, ''cat''), (22, ''cat'')])"
proof -
  have wb: "wellBehaved defaultConfig (toLowerCase (trim ''cat''))"
    by (simp add: example_strings example_wellBehaved)
  have ne: "trim ''cat'' \<noteq> []" by (simp add: example_strings)
  from searchFor_cells [OF wb ne, of 5 "newInstance examplePage"]
  obtain s' where "searchFor defaultConfig 5 ''cat'' (newInstance examplePage) = Inr s'"
    and "matchCells s' = [21, 22]" and "matchCellCalls (calls s') = [(21, ''cat''), (22, ''cat'')]"
    by (auto simp: newInstance_def defaultConfig_fields examplePage_fields example_strings example_rows)
  with wb ne show ?thesis by auto
qed

text \<open>
  C3. The claim is that every reset leaves the three arrays empty, also where a reset
  callback is not a function. The code does not: \<^verbatim>\<open>doReset\<close> empties an array only by
  popping it in the loop it runs for a callable \<open>func\<close>, and its last line assigns to
  its own parameter. With \<^verbatim>\<open>onNoMatchRow\<close> given and \<^verbatim>\<open>resetNoMatchRow\<close> at its default
  \<^verbatim>\<open>null\<close>, the row that did not match ``cat'' is still in \<^verbatim>\<open>noMatchRows\<close> after
  \<^verbatim>\<open>searchFor("cat")\<close> and \<^verbatim>\<open>reset()\<close>, and a second search adds it once more.
\<close>

theorem reset_keeps_noMatchRows:
  "(case thenDo (searchFor noMatchConfig 5 ''cat'' (newInstance examplePage)) (reset noMatchConfig 5) of
      Inr s \<Rightarrow> noMatchRows s = [10] \<and> matchRows s = [] \<and> matchCells s = []
    | Inl e \<Rightarrow> False)
   \<and> (case thenDo (searchFor noMatchConfig 5 ''cat'' (newInstance examplePage))
               (searchFor noMatchConfig 5 ''cat'') of
      Inr s \<Rightarrow> noMatchRows s = [10, 10]
    | Inl e \<Rightarrow> False)"
  by (simp add: run_simps noMatchConfig_fields)

text \<open>
  C4. The claim is that no call of \<^verbatim>\<open>reset\<close> or \<^verbatim>\<open>searchFor\<close> throws because a
  configured callback is not a function. \<^verbatim>\<open>reset\<close> calls \<^verbatim>\<open>config.resetTable\<close> without
  the \<^verbatim>\<open>typeof\<close> test that guards every other callback: with \<^verbatim>\<open>resetTable: null\<close> both
  \<^verbatim>\<open>reset()\<close> and \<^verbatim>\<open>searchFor("cat")\<close> throw a \<^verbatim>\<open>TypeError\<close>, on a new instance, before
  any callback has been called.
\<close>

theorem reset_throws_without_resetTable:
  "reset noResetTableConfig 5 (newInstance examplePage) = Inl (TypeError, newInstance examplePage)
   \<and> searchFor noResetTableConfig 5 ''cat'' (newInstance examplePage)
       = Inl (TypeError, newInstance examplePage)"
  by (simp add: searchFor_def reset_def doReset_def noResetTableConfig_def defaultConfig_def
      configWith_def newInstance_def)

text \<open>
  C5. The claim is that \<^verbatim>\<open>highlightText\<close> wraps every occurrence of a plain query text in
  every text run. The pattern of line 176 takes a whole text run in one match, with the
  query text in its third group and greedy groups around it, so one occurrence in each
  run is wrapped: the last one. In ``cat cat'' the second ``cat'' is wrapped and the
  first is not; in ``Cat and cat<br>cat'' the first run keeps its ``Cat'' unwrapped.
  The comment of line 171 (``add new <mark> tags around occurences of query text'') and
  the \<^verbatim>\<open>g\<close> flag say what was meant.
\<close>

theorem highlight_last_occurrence_only:
  "plainText ''cat''
   \<and> newHtml ''cat cat'' ''cat'' = Inr ''cat <mark>cat</mark>''
   \<and> newHtml ''Cat and cat<br>cat'' ''cat'' = Inr ''Cat and <mark>cat</mark><br><mark>cat</mark>''"
  by code_simp






text \<open>
  C8. A second \<^verbatim>\<open>reset\<close>, run in the state a first \<^verbatim>\<open>reset\<close> returned, calls no cell and
  no row callback: it is the call of \<^verbatim>\<open>resetTable\<close> alone. It leaves the three arrays
  as they are and adds that one call to the log. With the default \<^verbatim>\<open>resetTable\<close>
  (removing a class that the first reset has removed already) it leaves the page as it
  is, too.
\<close>

theorem reset_twice:
  assumes "reset cfg self s = Inr s1"
  shows "(\<exists>f. resetTable cfg = Some f \<and> reset cfg self s1 = invoke (ResetTable self) (f self) s1)
    \<and> matchCells (final (reset cfg self s1)) = matchCells s1
    \<and> matchRows (final (reset cfg self s1)) = matchRows s1
    \<and> noMatchRows (final (reset cfg self s1)) = noMatchRows s1
    \<and> calls (final (reset cfg self s1)) = calls s1 @ [ResetTable self]
    \<and> (resetTable cfg = resetTable (configWith matchClass resultsClass busyClass) \<longrightarrow>
         reset cfg self s1 = Inr (s1\<lparr>calls := calls s1 @ [ResetTable self]\<rparr>))"
proof -
  from assms obtain sa sb sc f where
    a: "doReset matchCells putMatchCells ResetCell (resetCell cfg) s = Inr sa" and
    b: "doReset matchRows putMatchRows ResetMatchRow (resetMatchRow cfg) sa = Inr sb" and
    c: "doReset noMatchRows putNoMatchRows ResetNoMatchRow (resetNoMatchRow cfg) sb = Inr sc" and
    f: "resetTable cfg = Some f" and
    t: "invoke (ResetTable self) (f self) sc = Inr s1"
    by (rule reset_Inr)
  have "resetCell cfg = None \<or> matchCells sa = []" using a by (rule doReset_Inr_done)
  then have cells: "resetCell cfg = None \<or> matchCells s1 = []"
    using b c t by (simp add: doReset_Inr_frame invoke_Inr_frame)
  have "resetMatchRow cfg = None \<or> matchRows sb = []" using b by (rule doReset_Inr_done)
  then have rows: "resetMatchRow cfg = None \<or> matchRows s1 = []"
    using c t by (simp add: doReset_Inr_frame invoke_Inr_frame)
  have "resetNoMatchRow cfg = None \<or> noMatchRows sc = []" using c by (rule doReset_Inr_done)
  then have norows: "resetNoMatchRow cfg = None \<or> noMatchRows s1 = []"
    using t by (simp add: invoke_Inr_frame)
  have 1: "doReset matchCells putMatchCells ResetCell (resetCell cfg) s1 = Inr s1"
    using cells by (rule doReset_idle)
  have 2: "doReset matchRows putMatchRows ResetMatchRow (resetMatchRow cfg) s1 = Inr s1"
    using rows by (rule doReset_idle)
  have 3: "doReset noMatchRows putNoMatchRows ResetNoMatchRow (resetNoMatchRow cfg) s1 = Inr s1"
    using norows by (rule doReset_idle)
  have again: "reset cfg self s1 = invoke (ResetTable self) (f self) s1"
    by (simp add: reset_def 1 2 3 f)
  have dflt: "reset cfg self s1 = Inr (s1\<lparr>calls := calls s1 @ [ResetTable self]\<rparr>)"
    if "resetTable cfg = resetTable (configWith matchClass resultsClass busyClass)"
  proof -
    from that f have f': "f = (\<lambda>table d. Inr (removeClass table resultsClass d))"
      by (simp add: configWith_def)
    from t obtain d where "f self (page sc) = Inr d" and s1: "s1 = sc\<lparr>calls := calls sc @ [ResetTable self], page := d\<rparr>"
      by (auto dest: invoke_Inr)
    with f' have "page s1 = removeClass self resultsClass (page sc)" by simp
    then have "f self (page s1) = Inr (page s1)" by (simp add: f')
    then show ?thesis by (simp add: again invoke_def)
  qed
  from again f dflt show ?thesis by simp
qed

theorem reset_twice_witness:
  "\<exists>s1. reset defaultConfig 5 (final (searchFor defaultConfig 5 ''cat'' (newInstance examplePage))) = Inr s1
     \<and> reset defaultConfig 5 s1 = Inr (s1\<lparr>calls := calls s1 @ [ResetTable 5]\<rparr>)
     \<and> matchCells (final (reset defaultConfig 5 s1)) = matchCells s1
     \<and> calls (final (reset defaultConfig 5 s1)) = calls s1 @ [ResetTable 5]"
proof -
  let ?s = "final (searchFor defaultConfig 5 ''cat'' (newInstance examplePage))"
  have "case reset defaultConfig 5 ?s of Inr s1 \<Rightarrow> True | Inl e \<Rightarrow> False"
    by (simp add: run_simps defaultConfig_fields)
  then obtain s1 where s1: "reset defaultConfig 5 ?s = Inr s1"
    by (cases "reset defaultConfig 5 ?s") auto
  have d: "resetTable defaultConfig
      = resetTable (configWith ''tablesearch-match'' ''tablesearch-results'' ''tablesearch-searching'')"
    by (simp add: defaultConfig_def)
  from reset_twice [OF s1, of "''tablesearch-match''" "''tablesearch-results''" "''tablesearch-searching''"] d s1
  show ?thesis by simp
qed

text \<open>
  C9. Every call of the matched-cell callback that a run of \<^verbatim>\<open>searchFor(query)\<close> makes
  has the normalised query, \<^verbatim>\<open>$.trim(query).toLowerCase()\<close>, as its second argument:
  whatever the configuration and the state, and whether the run returns or throws.
\<close>

theorem matchCell_query:
  "\<exists>new. calls (final (searchFor cfg self query s)) = calls s @ new
     \<and> (\<forall>cell q. OnMatchCell cell q \<in> set new \<longrightarrow> q = toLowerCase (trim query))"
proof -
  let ?P = "\<lambda>c. \<forall>cell q. c = OnMatchCell cell q \<longrightarrow> q = toLowerCase (trim query)"
  have "logged ?P s (searchFor cfg self query s)"
    by (rule logged_searchFor) simp_all
  then show ?thesis by (auto simp: logged_def list_all_iff)
qed

theorem matchCell_query_witness:
  "OnMatchCell 21 ''cat''
     \<in> set (calls (final (searchFor defaultConfig 5 '' CAT '' (newInstance examplePage))))
   \<and> toLowerCase (trim '' CAT '') = ''cat''"
proof -
  let ?r = "searchFor defaultConfig 5 '' CAT '' (newInstance examplePage)"
  have called: "OnMatchCell 21 ''cat'' \<in> set (calls (final ?r))"
    by (simp add: run_simps defaultConfig_fields)
  from matchCell_query [of defaultConfig 5 "'' CAT ''" "newInstance examplePage"]
  obtain new where new: "calls (final ?r) = calls (newInstance examplePage) @ new"
    and q: "\<forall>cell q. OnMatchCell cell q \<in> set new \<longrightarrow> q = toLowerCase (trim '' CAT '')"
    by blast
  from new have "calls (final ?r) = new" by (simp add: newInstance_def)
  with called q have "''cat'' = toLowerCase (trim '' CAT '')" by blast
  with called show ?thesis by simp
qed

text \<open>
  C10. The match pass of \<^verbatim>\<open>searchFor\<close> appends to an array only under the
  \<^verbatim>\<open>typeof\<close> test of the matching callback: where \<^verbatim>\<open>onMatchCell\<close> (\<^verbatim>\<open>onMatchRow\<close>,
  \<^verbatim>\<open>onNoMatchRow\<close>) is not a function, \<^verbatim>\<open>matchCells\<close> (\<^verbatim>\<open>matchRows\<close>, \<^verbatim>\<open>noMatchRows\<close>)
  is after the run what the reset at its start left. An array that was empty before
  the run is then empty after it, and the reset loop over it has nothing to pop: no
  reset callback is called for it.
\<close>

theorem no_callback_no_record:
  "(onMatchCell cfg = None \<longrightarrow>
      matchCells (final (searchFor cfg self query s)) = matchCells (final (reset cfg self s)))
   \<and> (onMatchRow cfg = None \<longrightarrow>
      matchRows (final (searchFor cfg self query s)) = matchRows (final (reset cfg self s)))
   \<and> (onNoMatchRow cfg = None \<longrightarrow>
      noMatchRows (final (searchFor cfg self query s)) = noMatchRows (final (reset cfg self s)))
   \<and> (onMatchCell cfg = None \<and> matchCells s = [] \<longrightarrow>
      matchCells (final (searchFor cfg self query s)) = []
      \<and> doReset matchCells putMatchCells ResetCell (resetCell cfg) (final (searchFor cfg self query s))
          = Inr (final (searchFor cfg self query s)))
   \<and> (onMatchRow cfg = None \<and> matchRows s = [] \<longrightarrow>
      matchRows (final (searchFor cfg self query s)) = []
      \<and> doReset matchRows putMatchRows ResetMatchRow (resetMatchRow cfg) (final (searchFor cfg self query s))
          = Inr (final (searchFor cfg self query s)))
   \<and> (onNoMatchRow cfg = None \<and> noMatchRows s = [] \<longrightarrow>
      noMatchRows (final (searchFor cfg self query s)) = []
      \<and> doReset noMatchRows putNoMatchRows ResetNoMatchRow (resetNoMatchRow cfg) (final (searchFor cfg self query s))
          = Inr (final (searchFor cfg self query s)))"
proof -
  have cells: "matchCells (final (searchFor cfg self query s)) = matchCells (final (reset cfg self s))"
    if "onMatchCell cfg = None"
    by (rule searchFor_invariant [where g = matchCells])
       (simp_all add: eachRow_invariant [where g = matchCells] eachRowBody_frame that)
  have rows: "matchRows (final (searchFor cfg self query s)) = matchRows (final (reset cfg self s))"
    if "onMatchRow cfg = None"
    by (rule searchFor_invariant [where g = matchRows])
       (simp_all add: eachRow_invariant [where g = matchRows] eachRowBody_frame that)
  have norows: "noMatchRows (final (searchFor cfg self query s)) = noMatchRows (final (reset cfg self s))"
    if "onNoMatchRow cfg = None"
    by (rule searchFor_invariant [where g = noMatchRows])
       (simp_all add: eachRow_invariant [where g = noMatchRows] eachRowBody_frame that)
  show ?thesis
    using cells rows norows
    by (auto simp: reset_keeps_empty doReset_empty)
qed

theorem no_callback_no_record_witness:
  "onMatchCell silentConfig = None \<and> onMatchRow silentConfig = None \<and> onNoMatchRow silentConfig = None
   \<and> matchCells (final (searchFor silentConfig 5 ''cat'' (newInstance examplePage))) = []
   \<and> matchRows (final (searchFor silentConfig 5 ''cat'' (newInstance examplePage))) = []
   \<and> noMatchRows (final (searchFor silentConfig 5 ''cat'' (newInstance examplePage))) = []"
proof -
  have off: "onMatchCell silentConfig = None" "onMatchRow silentConfig = None"
    "onNoMatchRow silentConfig = None"
    by (simp_all add: silentConfig_fields)
  have new: "matchCells (newInstance examplePage) = []" "matchRows (newInstance examplePage) = []"
    "noMatchRows (newInstance examplePage) = []"
    by (simp_all add: newInstance_def)
  from no_callback_no_record [of silentConfig 5 "''cat''" "newInstance examplePage"] off new
  show ?thesis by blast
qed

end
